theory Spec2Isabelle
  imports Complex_Main "HOL-Library.Signed_Division"
begin

section \<open>Data model of \<^verbatim>\<open>puyo.c\<close>\<close>

text \<open>
  The playfield is \<^verbatim>\<open>WIDTH = 10\<close> columns by \<^verbatim>\<open>HEIGHT = 20\<close> rows; a piece lives in
  a \<^verbatim>\<open>SIZE = 3\<close> square matrix. C \<^verbatim>\<open>int\<close> values are modelled as integers: coordinates
  and counters of the game stay far inside the 32-bit range (signed overflow is undefined
  in C and is not modelled).
\<close>

abbreviation WIDTH :: int where "WIDTH \<equiv> 10"
abbreviation HEIGHT :: int where "HEIGHT \<equiv> 20"
abbreviation SIZE :: int where "SIZE \<equiv> 3"

text \<open>
  An \<^verbatim>\<open>int m[3][3]\<close> array is a value with nine entries, row-major. \<open>cell m y x\<close> reads
  \<^verbatim>\<open>m[y][x]\<close>; the source only ever indexes with \<open>y\<close>, \<open>x\<close> in \<open>0..2\<close> (an index outside
  is undefined in C; the model reads 0 there). \<open>mk3 f\<close> is the matrix that a double loop
  \<^verbatim>\<open>for y, for x: t[y][x] = f y x\<close> fills.
\<close>

datatype mat3 = Mat3 int int int int int int int int int

fun cell :: "mat3 \<Rightarrow> int \<Rightarrow> int \<Rightarrow> int" where
  "cell (Mat3 a00 a01 a02 a10 a11 a12 a20 a21 a22) y x =
     (if y = 0 then (if x = 0 then a00 else if x = 1 then a01 else if x = 2 then a02 else 0)
      else if y = 1 then (if x = 0 then a10 else if x = 1 then a11 else if x = 2 then a12 else 0)
      else if y = 2 then (if x = 0 then a20 else if x = 1 then a21 else if x = 2 then a22 else 0)
      else 0)"

definition mk3 :: "(int \<Rightarrow> int \<Rightarrow> int) \<Rightarrow> mat3" where
  "mk3 f = Mat3 (f 0 0) (f 0 1) (f 0 2) (f 1 0) (f 1 1) (f 1 2) (f 2 0) (f 2 1) (f 2 2)"

text \<open>\<^verbatim>\<open>typedef struct { int shape[SIZE][SIZE]; int color[SIZE][SIZE]; } Block;\<close>\<close>

record Block =
  shape :: mat3
  color :: mat3

text \<open>
  The \<^verbatim>\<open>int [HEIGHT][WIDTH]\<close> arrays \<^verbatim>\<open>board\<close>, \<^verbatim>\<open>board_color\<close> and \<^verbatim>\<open>visited\<close> are
  functions from (row, column) to the stored value. Every access of the modelled code
  is behind the source's own bounds checks, except in \<^verbatim>\<open>drawGhost\<close>, whose model makes
  the out-of-range read explicit.
\<close>

type_synonym grid = "int \<times> int \<Rightarrow> int"

text \<open>
  The global variables of the program. \<^verbatim>\<open>next\<close> is called \<open>next_block\<close>;
  \<^verbatim>\<open>fade_timer\<close> (a double that only ever holds 0.0 or 5.0 minus multiples of 0.03 for
  display) is a rational; \<^verbatim>\<open>base_speed\<close> is only read by the frame timing of \<^verbatim>\<open>main\<close>
  and is left out.
\<close>

record game =
  board :: grid
  board_color :: grid
  visited :: grid
  current :: Block
  next_block :: Block
  cx :: int
  cy :: int
  score :: int
  level :: int
  clears :: int
  max_colors :: int
  input_locked :: int
  last_chain :: int
  fade_timer :: rat

text \<open>Row-major scan order of the nested \<^verbatim>\<open>for\<close> loops (outer index first).\<close>

definition local_cells :: "(int \<times> int) list" where
  "local_cells = List.product [0..SIZE - 1] [0..SIZE - 1]"

definition cells :: "(int \<times> int) list" where
  "cells = List.product [0..HEIGHT - 1] [0..WIDTH - 1]"

definition cells_bottom_up :: "(int \<times> int) list" where
  "cells_bottom_up = List.product (rev [0..HEIGHT - 1]) [0..WIDTH - 1]"

definition in_bounds :: "int \<times> int \<Rightarrow> bool" where
  "in_bounds p = (0 \<le> fst p \<and> fst p < HEIGHT \<and> 0 \<le> snd p \<and> snd p < WIDTH)"

section \<open>Pieces\<close>

text \<open>\<^verbatim>\<open>isCorner\<close> (the C truth value 1 is \<open>True\<close>).\<close>

definition isCorner :: "int \<Rightarrow> int \<Rightarrow> bool" where
  "isCorner y x = ((y = 0 \<and> x = 0) \<or> (y = 0 \<and> x = 2) \<or> (y = 2 \<and> x = 0) \<or> (y = 2 \<and> x = 2))"

text \<open>
  \<^verbatim>\<open>makeBlock\<close>: \<open>r1\<close> and \<open>r2\<close> are the values of its two \<^verbatim>\<open>rand()\<close> calls; \<^verbatim>\<open>%\<close> is
  C's truncating remainder.
\<close>

definition makeBlock :: "int \<Rightarrow> int \<Rightarrow> int \<Rightarrow> Block" where
  "makeBlock maxc r1 r2 =
     \<lparr>shape = Mat3 0 1 0 0 1 0 0 0 0,
      color = Mat3 0 (1 + r1 smod maxc) 0 0 (1 + r2 smod maxc) 0 0 0 0\<rparr>"

definition rotateRight :: "Block \<Rightarrow> Block" where
  "rotateRight b =
     \<lparr>shape = mk3 (\<lambda>y x. if \<not> isCorner y x then cell (shape b) (SIZE - 1 - x) y else 0),
      color = mk3 (\<lambda>y x. if \<not> isCorner y x then cell (color b) (SIZE - 1 - x) y else 0)\<rparr>"

definition rotateLeft :: "Block \<Rightarrow> Block" where
  "rotateLeft b =
     \<lparr>shape = mk3 (\<lambda>y x. if \<not> isCorner y x then cell (shape b) x (SIZE - 1 - y) else 0),
      color = mk3 (\<lambda>y x. if \<not> isCorner y x then cell (color b) x (SIZE - 1 - y) else 0)\<rparr>"

section \<open>Collision and rotation kicks\<close>

text \<open>
  \<^verbatim>\<open>checkCollision\<close>: the two nested loops with their early \<^verbatim>\<open>return 1\<close>, over the local
  cells in scan order; falling off the end is \<^verbatim>\<open>return 0\<close>.
\<close>

fun checkCollision_loop :: "grid \<Rightarrow> Block \<Rightarrow> int \<Rightarrow> int \<Rightarrow> (int \<times> int) list \<Rightarrow> bool" where
  "checkCollision_loop brd b nx ny [] = False"
| "checkCollision_loop brd b nx ny ((y, x) # rest) =
     (if cell (shape b) y x \<noteq> 0 then
        (let gx = nx + x; gy = ny + y in
         if gx < 0 \<or> gx \<ge> WIDTH \<or> gy \<ge> HEIGHT then True
         else if gy \<ge> 0 \<and> brd (gy, gx) \<noteq> 0 then True
         else checkCollision_loop brd b nx ny rest)
      else checkCollision_loop brd b nx ny rest)"

definition checkCollision :: "game \<Rightarrow> Block \<Rightarrow> int \<Rightarrow> int \<Rightarrow> bool" where
  "checkCollision s b nx ny = checkCollision_loop (board s) b nx ny local_cells"

text \<open>
  \<^verbatim>\<open>attemptRotation\<close>: \<open>nx\<close>, \<open>ny\<close> are the values behind the two pointers; the result is
  the return value, the values left behind the pointers, and the globals (only
  \<^verbatim>\<open>current\<close> is assigned).
\<close>

definition offsets :: "(int \<times> int) list" where
  "offsets = [(0, 0), (-1, 0), (1, 0), (0, -1), (-1, -1), (1, -1)]"

fun attemptRotation_loop ::
  "Block \<Rightarrow> int \<Rightarrow> int \<Rightarrow> (int \<times> int) list \<Rightarrow> game \<Rightarrow> bool \<times> int \<times> int \<times> game" where
  "attemptRotation_loop rotated nx ny [] s = (False, nx, ny, s)"
| "attemptRotation_loop rotated nx ny ((ox, oy) # rest) s =
     (let tx = nx + ox; ty = ny + oy in
      if \<not> checkCollision s rotated tx ty then (True, tx, ty, s\<lparr>current := rotated\<rparr>)
      else attemptRotation_loop rotated nx ny rest s)"

definition attemptRotation :: "Block \<Rightarrow> int \<Rightarrow> int \<Rightarrow> game \<Rightarrow> bool \<times> int \<times> int \<times> game" where
  "attemptRotation rotated nx ny s = attemptRotation_loop rotated nx ny offsets s"

section \<open>Locking a piece\<close>

definition place_cell :: "Block \<Rightarrow> int \<Rightarrow> int \<Rightarrow> int \<times> int \<Rightarrow> grid \<times> grid \<Rightarrow> grid \<times> grid" where
  "place_cell b bx byy = (\<lambda>(y, x) (brd, col).
     if cell (shape b) y x \<noteq> 0 then
       (let gx = bx + x; gy = byy + y in
        if gy \<ge> 0 \<and> gy < HEIGHT \<and> gx \<ge> 0 \<and> gx < WIDTH
        then (brd((gy, gx) := 1), col((gy, gx) := cell (color b) y x))
        else (brd, col))
     else (brd, col))"

definition placeBlock :: "Block \<Rightarrow> int \<Rightarrow> int \<Rightarrow> game \<Rightarrow> game" where
  "placeBlock b bx byy s =
     (let (brd, col) = fold (place_cell b bx byy) local_cells (board s, board_color s)
      in s\<lparr>board := brd, board_color := col\<rparr>)"

section \<open>Gravity\<close>

text \<open>
  The inner loop of \<^verbatim>\<open>gravityFailSafe\<close>,
  \<^verbatim>\<open>while (ny + 1 < HEIGHT && !board[ny + 1][x]) ny++;\<close>, started at an occupied cell
  of the board (so \<open>ny \<ge> 0\<close> and every read is inside the array).
\<close>

function settle_row :: "grid \<Rightarrow> int \<Rightarrow> int \<Rightarrow> int" where
  "settle_row brd x ny =
     (if ny + 1 < HEIGHT \<and> brd (ny + 1, x) = 0 then settle_row brd x (ny + 1) else ny)"
  by pat_completeness auto
termination
  by (relation "measure (\<lambda>(brd, x, ny). nat (HEIGHT - ny))") auto

declare settle_row.simps [simp del]

text \<open>
  One iteration of the body of the two \<^verbatim>\<open>for\<close> loops of \<^verbatim>\<open>gravityFailSafe\<close>: the
  cell is read from the board \<open>brd\<close>, \<open>col\<close> of the state before the call, and written
  into the buffers \<^verbatim>\<open>tmp\<close>, \<^verbatim>\<open>tmpc\<close>.
\<close>

definition gravity_cell ::
  "grid \<Rightarrow> grid \<Rightarrow> int \<times> int \<Rightarrow> bool \<times> grid \<times> grid \<Rightarrow> bool \<times> grid \<times> grid" where
  "gravity_cell brd col = (\<lambda>(y, x) (moved, tmp, tmpc).
     if brd (y, x) \<noteq> 0 then
       (let ny = settle_row brd x y
        in (moved \<or> ny \<noteq> y, tmp((ny, x) := 1), tmpc((ny, x) := col (y, x))))
     else (moved, tmp, tmpc))"

text \<open>\<^verbatim>\<open>gravityFailSafe\<close>: the result is the return value \<^verbatim>\<open>moved\<close> and the new globals.\<close>

definition gravityFailSafe :: "game \<Rightarrow> bool \<times> game" where
  "gravityFailSafe s =
     (let (moved, tmp, tmpc) =
        fold (gravity_cell (board s) (board_color s)) cells_bottom_up (False, (\<lambda>_. 0), (\<lambda>_. 0))
      in (moved, s\<lparr>board := tmp, board_color := tmpc\<rparr>))"

text \<open>
  \<^verbatim>\<open>gravity\<close>, \<^verbatim>\<open>while (gravityFailSafe());\<close>. \<^verbatim>\<open>animateGravity\<close> is the same loop with
  a redraw and a sleep between the steps, which change no global.
\<close>

partial_function (option) gravity :: "game \<Rightarrow> game option" where
  "gravity s = (case gravityFailSafe s of (moved, s') \<Rightarrow> if moved then gravity s' else Some s')"

declare gravity.simps [code]

section \<open>Group detection and clearing\<close>

text \<open>
  \<^verbatim>\<open>dfs\<close> reads the globals \<^verbatim>\<open>board\<close> and \<^verbatim>\<open>board_color\<close> and writes \<^verbatim>\<open>visited\<close>, the
  array \<^verbatim>\<open>coords\<close> and \<^verbatim>\<open>*count\<close>. The model threads the pair of \<^verbatim>\<open>visited\<close> and the
  list \<^verbatim>\<open>coords[0..*count)\<close>. The integer the function returns is discarded at every call
  site and is not modelled.
\<close>

function dfs ::
  "grid \<Rightarrow> grid \<Rightarrow> int \<Rightarrow> int \<Rightarrow> int \<Rightarrow> grid \<times> (int \<times> int) list \<Rightarrow> grid \<times> (int \<times> int) list" where
  "dfs brd col y x c (vis, coords) =
     (if y < 0 \<or> y \<ge> HEIGHT \<or> x < 0 \<or> x \<ge> WIDTH then (vis, coords)
      else if brd (y, x) = 0 \<or> col (y, x) \<noteq> c \<or> vis (y, x) \<noteq> 0 then (vis, coords)
      else dfs brd col y (x - 1) c
             (dfs brd col y (x + 1) c
               (dfs brd col (y - 1) x c
                 (dfs brd col (y + 1) x c (vis((y, x) := 1), coords @ [(y, x)])))))"
  by pat_completeness auto

text \<open>
  The recursion is nested, so its termination rests on a fact about the function itself:
  a call never un-marks a cell, and every recursive descent has marked one more cell of
  the board.
\<close>

lemma finite_in_bounds: "finite {p. in_bounds p}"
proof -
  have "{p. in_bounds p} \<subseteq> {0..<HEIGHT} \<times> {0..<WIDTH}"
    by (auto simp: in_bounds_def)
  then show ?thesis by (rule finite_subset) simp
qed

definition unvisited :: "grid \<Rightarrow> (int \<times> int) set" where
  "unvisited vis = {p. in_bounds p \<and> vis p = 0}"

lemma finite_unvisited: "finite (unvisited vis)"
  unfolding unvisited_def by (rule finite_subset [OF _ finite_in_bounds]) auto

lemma unvisited_mark: "unvisited (vis(p := 1)) \<subseteq> unvisited vis"
  by (auto simp: unvisited_def)

lemma unvisited_mark_less:
  assumes "in_bounds p" "vis p = 0"
  shows "card (unvisited (vis(p := 1))) < card (unvisited vis)"
proof (rule psubset_card_mono [OF finite_unvisited])
  from assms have "p \<in> unvisited vis" "p \<notin> unvisited (vis(p := 1))"
    by (auto simp: unvisited_def)
  with unvisited_mark [of vis p] show "unvisited (vis(p := 1)) \<subset> unvisited vis"
    by blast
qed

lemma dfs_dom_mono:
  "dfs_dom (brd, col, y, x, c, vc) \<Longrightarrow> unvisited (fst (dfs brd col y x c vc)) \<subseteq> unvisited (fst vc)"
proof (induction brd col y x c vc rule: dfs.pinduct)
  case (1 brd col y x c vis coords)
  show ?case
  proof (cases "(y < 0 \<or> HEIGHT \<le> y \<or> x < 0 \<or> WIDTH \<le> x) \<or> (brd (y, x) = 0 \<or> col (y, x) \<noteq> c \<or> vis (y, x) \<noteq> 0)")
    case True
    then show ?thesis using "1.hyps" by (auto simp: dfs.psimps)
  next
    case False
    then have a: "\<not> (y < 0 \<or> HEIGHT \<le> y \<or> x < 0 \<or> WIDTH \<le> x)"
      and b: "\<not> (brd (y, x) = 0 \<or> col (y, x) \<noteq> c \<or> vis (y, x) \<noteq> 0)" by auto
    note ih = "1.IH"(1) [OF a b] "1.IH"(2) [OF a b] "1.IH"(3) [OF a b] "1.IH"(4) [OF a b]
    have "dfs brd col y x c (vis, coords) = dfs brd col y (x - 1) c
             (dfs brd col y (x + 1) c
               (dfs brd col (y - 1) x c
                 (dfs brd col (y + 1) x c (vis((y, x) := 1), coords @ [(y, x)]))))"
      using "1.hyps" a b by (simp add: dfs.psimps)
    with ih unvisited_mark [of vis "(y, x)"] show ?thesis
      by (auto simp del: fun_upd_apply)
  qed
qed

lemma dfs_dom_card:
  "dfs_dom (brd, col, y, x, c, vc) \<Longrightarrow>
     card (unvisited (fst (dfs brd col y x c vc))) \<le> card (unvisited (fst vc))"
  by (rule card_mono [OF finite_unvisited dfs_dom_mono])

termination dfs
proof (relation "measure (\<lambda>(brd, col, y, x, c, vc). card (unvisited (fst vc)))", goal_cases)
  case 1
  show ?case by simp
next
  case (2 brd col y x c vis coords)
  then show ?case by (simp add: unvisited_mark_less in_bounds_def)
next
  case (3 brd col y x c vis coords)
  then have "card (unvisited (vis((y, x) := 1))) < card (unvisited vis)"
    by (intro unvisited_mark_less) (auto simp: in_bounds_def)
  with dfs_dom_card [OF 3(3)] show ?case by simp
next
  case (4 brd col y x c vis coords)
  then have "card (unvisited (vis((y, x) := 1))) < card (unvisited vis)"
    by (intro unvisited_mark_less) (auto simp: in_bounds_def)
  with dfs_dom_card [OF 4(3)] dfs_dom_card [OF 4(4)] show ?case by simp
next
  case (5 brd col y x c vis coords)
  then have "card (unvisited (vis((y, x) := 1))) < card (unvisited vis)"
    by (intro unvisited_mark_less) (auto simp: in_bounds_def)
  with dfs_dom_card [OF 5(3)] dfs_dom_card [OF 5(4)] dfs_dom_card [OF 5(5)] show ?case by simp
qed

declare dfs.simps [simp del]

text \<open>
  The removal loop \<^verbatim>\<open>for (i = 0; i < cnt; i++) { board[cy][cx] = 0; board_color[cy][cx] = 0; }\<close>
  over the collected coordinates, on one array.
\<close>

definition zero_cells :: "(int \<times> int) list \<Rightarrow> grid \<Rightarrow> grid" where
  "zero_cells coords g = fold (\<lambda>p g'. g'(p := 0)) coords g"

text \<open>
  \<^verbatim>\<open>(int)(cnt * 100 * chain_mult)\<close>: the integer product is converted to double,
  multiplied, and truncated toward zero. The multipliers the program passes are
  \<open>1 + d/2\<close> for a small \<open>d\<close>; on these and on products below \<open>2^53\<close> double arithmetic
  is exact, so the double is modelled by the rational it denotes.
\<close>

definition c_trunc :: "rat \<Rightarrow> int" where
  "c_trunc r = (if 0 \<le> r then \<lfloor>r\<rfloor> else \<lceil>r\<rceil>)"

text \<open>
  The body of the two \<^verbatim>\<open>for\<close> loops of \<^verbatim>\<open>clearGroups\<close> at board cell \<open>p = (y, x)\<close>; the
  loop state is the globals and the locals \<^verbatim>\<open>total\<close> and \<^verbatim>\<open>groups\<close>.
\<close>

definition clear_cell :: "rat \<Rightarrow> int \<times> int \<Rightarrow> game \<times> int \<times> int \<Rightarrow> game \<times> int \<times> int" where
  "clear_cell chain_mult = (\<lambda>(y, x) (s, total, groups).
     if board s (y, x) \<noteq> 0 \<and> visited s (y, x) = 0 then
       (let c = board_color s (y, x);
            (vis, coords) = dfs (board s) (board_color s) y x c (visited s, []);
            cnt = int (length coords);
            s1 = s\<lparr>visited := vis\<rparr>
        in if cnt \<ge> 4 then
             (s1\<lparr>board := zero_cells coords (board s1),
                 board_color := zero_cells coords (board_color s1),
                 score := score s1 + c_trunc (of_int (cnt * 100) * chain_mult)\<rparr>,
              total + cnt, groups + 1)
           else (s1, total, groups))
     else (s, total, groups))"

text \<open>
  \<^verbatim>\<open>clearGroups\<close>: the result is the return value \<^verbatim>\<open>total\<close> and the new globals.
  \<^verbatim>\<open>clears / 5\<close> is C's truncating division.
\<close>

definition clearGroups :: "rat \<Rightarrow> game \<Rightarrow> int \<times> game" where
  "clearGroups chain_mult s =
     (let (s1, total, groups) = fold (clear_cell chain_mult) cells (s\<lparr>visited := (\<lambda>_. 0)\<rparr>, 0, 0);
          s2 = (if groups > 0 then
                  (let s' = s1\<lparr>clears := clears s1 + groups\<rparr>
                   in if clears s' sdiv 5 \<ge> level s' then s'\<lparr>level := level s' + 1\<rparr> else s')
                else s1)
      in (total, s2))"

section \<open>Ghost projection\<close>

text \<open>
  The loop \<^verbatim>\<open>while (gy + 1 < HEIGHT && !board[gy + 1][gx]) gy++;\<close> of \<^verbatim>\<open>drawGhost\<close>.
  Unlike every other access, \<^verbatim>\<open>board[gy + 1][gx]\<close> is read here before any bounds check
  on \<open>gx\<close> or on \<open>gy + 1 \<ge> 0\<close>: a read outside the array is undefined behaviour, \<open>None\<close>.
\<close>

function ghost_drop :: "grid \<Rightarrow> int \<Rightarrow> int \<Rightarrow> int option" where
  "ghost_drop brd gx gy =
     (if gy + 1 < HEIGHT then
        (if gy + 1 < 0 \<or> gx < 0 \<or> gx \<ge> WIDTH then None
         else if brd (gy + 1, gx) = 0 then ghost_drop brd gx (gy + 1)
         else Some gy)
      else Some gy)"
  by pat_completeness auto
termination
  by (relation "measure (\<lambda>(brd, gx, gy). nat (HEIGHT - gy))") auto

declare ghost_drop.simps [simp del]

text \<open>
  \<^verbatim>\<open>drawGhost\<close>: the loops run over the local column \<open>xx\<close> first, then the local row
  \<open>yy\<close>. The result lists, in that order, the board cells \<open>(gy, gx)\<close> at which the two dots
  are drawn. The function assigns no global and nothing behind \<^verbatim>\<open>b\<close>, so there is no
  state to return.
\<close>

fun drawGhost_loop :: "grid \<Rightarrow> Block \<Rightarrow> int \<Rightarrow> int \<Rightarrow> (int \<times> int) list \<Rightarrow> (int \<times> int) list option" where
  "drawGhost_loop brd b x y [] = Some []"
| "drawGhost_loop brd b x y ((xx, yy) # rest) =
     (if cell (shape b) yy xx \<noteq> 0 then
        (case ghost_drop brd (x + xx) (y + yy) of
           None \<Rightarrow> None
         | Some gy \<Rightarrow>
             (case drawGhost_loop brd b x y rest of
                None \<Rightarrow> None
              | Some ds \<Rightarrow>
                  (let gx = x + xx in
                   if gy \<ge> 0 \<and> gy < HEIGHT \<and> gx \<ge> 0 \<and> gx < WIDTH
                   then Some ((gy, gx) # ds) else Some ds)))
      else drawGhost_loop brd b x y rest)"

definition drawGhost :: "game \<Rightarrow> Block \<Rightarrow> int \<Rightarrow> int \<Rightarrow> (int \<times> int) list option" where
  "drawGhost s b x y = drawGhost_loop (board s) b x y local_cells"

section \<open>Hard drop, lock and cascade\<close>

text \<open>
  \<^verbatim>\<open>hardDrop\<close>, \<^verbatim>\<open>while (!checkCollision(&current, cx, cy + 1)) cy++;\<close>. The loop need not
  end (a piece without an occupied cell never collides): not returning is \<open>None\<close>.
\<close>

partial_function (option) hardDrop :: "game \<Rightarrow> game option" where
  "hardDrop s =
     (if \<not> checkCollision s (current s) (cx s) (cy s + 1) then hardDrop (s\<lparr>cy := cy s + 1\<rparr>)
      else Some s)"

declare hardDrop.simps [code]

text \<open>
  The cascade of \<^verbatim>\<open>lock_and_cascade\<close>. \<open>cascade_inner\<close> is the inner \<^verbatim>\<open>while (1)\<close> with the
  locals \<^verbatim>\<open>chain\<close> and \<^verbatim>\<open>any_wave_cleared\<close>; \<open>cascade_outer\<close> is the outer one. The
  redraws and sleeps between the steps change no global and are left out.
\<close>

partial_function (option) cascade_inner :: "int \<Rightarrow> bool \<Rightarrow> game \<Rightarrow> (int \<times> bool \<times> game) option" where
  "cascade_inner chain any_wave_cleared s =
     (case clearGroups (1 + (1 / 2) * of_int chain) s of
        (cleared, s1) \<Rightarrow>
          if cleared = 0 then Some (chain, any_wave_cleared, s1)
          else (case gravity (s1\<lparr>last_chain := chain + 1, fade_timer := 5\<rparr>) of
                  None \<Rightarrow> None
                | Some s2 \<Rightarrow> cascade_inner (chain + 1) True s2))"

partial_function (option) cascade_outer :: "int \<Rightarrow> game \<Rightarrow> (int \<times> game) option" where
  "cascade_outer chain s =
     (case cascade_inner chain False s of
        None \<Rightarrow> None
      | Some (chain', any_wave_cleared, s1) \<Rightarrow>
          (case gravity s1 of
             None \<Rightarrow> None
           | Some s2 \<Rightarrow> if \<not> any_wave_cleared then Some (chain', s2) else cascade_outer chain' s2))"

declare cascade_inner.simps [code] cascade_outer.simps [code]

text \<open>
  How \<^verbatim>\<open>lock_and_cascade\<close> ends: it returns to its caller, or it reaches \<^verbatim>\<open>exit(0)\<close> in
  the game-over branch.
\<close>

datatype outcome = Returned game | GameOver game

text \<open>\<open>r1\<close>, \<open>r2\<close> are the values of the two \<^verbatim>\<open>rand()\<close> calls of \<^verbatim>\<open>makeBlock(&next)\<close>.\<close>

definition lock_and_cascade :: "int \<Rightarrow> int \<Rightarrow> game \<Rightarrow> outcome option" where
  "lock_and_cascade r1 r2 s =
     (let s1 = placeBlock (current s) (cx s) (cy s) (s\<lparr>input_locked := 1\<rparr>);
          s2 = s1\<lparr>current := next_block s1,
                  next_block := makeBlock (max_colors s1) r1 r2,
                  cx := WIDTH sdiv 2 - 1, cy := 0\<rparr>
      in case cascade_outer 0 s2 of
           None \<Rightarrow> None
         | Some (chain, s3) \<Rightarrow>
             (let s4 = (if chain = 0 then s3\<lparr>last_chain := 0, fade_timer := 0\<rparr> else s3);
                  s5 = s4\<lparr>input_locked := 0\<rparr>
              in if checkCollision s5 (current s5) (cx s5) (cy s5) then Some (GameOver s5)
                 else Some (Returned s5)))"

section \<open>Predicates and example states used by the theorems\<close>

text \<open>The four corner cells of a piece hold no block and no colour.\<close>

definition corners_empty :: "Block \<Rightarrow> bool" where
  "corners_empty b =
     (cell (shape b) 0 0 = 0 \<and> cell (shape b) 0 2 = 0 \<and> cell (shape b) 2 0 = 0 \<and> cell (shape b) 2 2 = 0 \<and>
      cell (color b) 0 0 = 0 \<and> cell (color b) 0 2 = 0 \<and> cell (color b) 2 0 = 0 \<and> cell (color b) 2 2 = 0)"

text \<open>
  The \<^verbatim>\<open>Block\<close> values of a game: \<^verbatim>\<open>makeBlock\<close> fills \<^verbatim>\<open>current\<close> and \<^verbatim>\<open>next\<close>, and
  \<^verbatim>\<open>main\<close> replaces \<^verbatim>\<open>current\<close> by a rotation of itself.
\<close>

inductive piece :: "Block \<Rightarrow> bool" where
  made: "piece (makeBlock maxc r1 r2)"
| right: "piece b \<Longrightarrow> piece (rotateRight b)"
| left: "piece b \<Longrightarrow> piece (rotateLeft b)"

text \<open>
  The state in which \<^verbatim>\<open>main\<close> starts a game on the easy setting, with both pieces of
  colour 1: the initial values of the globals.
\<close>

definition empty_game :: game where
  "empty_game = \<lparr>board = (\<lambda>_. 0), board_color = (\<lambda>_. 0), visited = (\<lambda>_. 0),
     current = makeBlock 4 0 0, next_block = makeBlock 4 0 0, cx = 4, cy = 0,
     score = 0, level = 1, clears = 0, max_colors = 4, input_locked = 0,
     last_chain = 0, fade_timer = 0\<rparr>"

text \<open>A board with every cell occupied.\<close>

definition full_game :: game where
  "full_game = empty_game\<lparr>board := (\<lambda>_. 1), board_color := (\<lambda>_. 1)\<rparr>"

section \<open>Connected groups of the board\<close>

text \<open>
  Two cells are adjacent when they are neighbours in one of the four directions. Two
  cells of the board are linked when they are adjacent, both occupied and of equal
  colour; the region of a cell is everything it reaches over links: for an occupied cell
  of the board, its maximal 4-directionally-connected group of same-coloured occupied
  cells.
\<close>

definition adjacent :: "int \<times> int \<Rightarrow> int \<times> int \<Rightarrow> bool" where
  "adjacent p q =
     ((fst q = fst p + 1 \<and> snd q = snd p) \<or> (fst q = fst p - 1 \<and> snd q = snd p) \<or>
      (fst q = fst p \<and> snd q = snd p + 1) \<or> (fst q = fst p \<and> snd q = snd p - 1))"

definition link :: "grid \<Rightarrow> grid \<Rightarrow> ((int \<times> int) \<times> (int \<times> int)) set" where
  "link brd col =
     {(p, q). in_bounds p \<and> in_bounds q \<and> brd p \<noteq> 0 \<and> brd q \<noteq> 0 \<and> col p = col q \<and> adjacent p q}"

definition region :: "grid \<Rightarrow> grid \<Rightarrow> int \<times> int \<Rightarrow> (int \<times> int) set" where
  "region brd col p = {q. (p, q) \<in> (link brd col)\<^sup>*}"

definition marked :: "grid \<Rightarrow> (int \<times> int) set" where
  "marked vis = {p. vis p \<noteq> 0}"

text \<open>
  The regions with four cells or more among those of the cells \<open>V\<close>, and the invariant
  of the scan of \<^verbatim>\<open>clearGroups\<close> over a board that was \<open>B0\<close>, \<open>C0\<close> with score \<open>sc0\<close>
  when the scan began: the visited cells are whole regions of that board, exactly the
  visited regions of four cells or more have been zeroed and paid for, and every
  occupied cell the scan has passed is visited.
\<close>

definition big_regions :: "grid \<Rightarrow> grid \<Rightarrow> (int \<times> int) set \<Rightarrow> (int \<times> int) set set" where
  "big_regions brd col V = {R \<in> region brd col ` V. 4 \<le> card R}"

definition scan_inv ::
  "grid \<Rightarrow> grid \<Rightarrow> int \<Rightarrow> rat \<Rightarrow> (int \<times> int) set \<Rightarrow> game \<times> int \<times> int \<Rightarrow> bool" where
  "scan_inv B0 C0 sc0 m done = (\<lambda>(s, total, groups).
     marked (visited s) \<subseteq> {p. in_bounds p \<and> B0 p \<noteq> 0} \<and>
     (\<forall>p \<in> marked (visited s). region B0 C0 p \<subseteq> marked (visited s)) \<and>
     (\<forall>p. board s p = (if p \<in> marked (visited s) \<and> 4 \<le> card (region B0 C0 p) then 0 else B0 p)) \<and>
     (\<forall>p. board_color s p = (if p \<in> marked (visited s) \<and> 4 \<le> card (region B0 C0 p) then 0 else C0 p)) \<and>
     (\<forall>p \<in> done. in_bounds p \<and> B0 p \<noteq> 0 \<longrightarrow> p \<in> marked (visited s)) \<and>
     score s = sc0 + (\<Sum>R \<in> big_regions B0 C0 (marked (visited s)). c_trunc (of_int (int (card R) * 100) * m)) \<and>
     total = (\<Sum>R \<in> big_regions B0 C0 (marked (visited s)). int (card R)) \<and>
     groups = int (card (big_regions B0 C0 (marked (visited s)))))"


text \<open>The groups of four cells or more of a board.\<close>

definition clearable :: "game \<Rightarrow> (int \<times> int) set set" where
  "clearable s =
     {R. \<exists>p. in_bounds p \<and> board s p \<noteq> 0 \<and> R = region (board s) (board_color s) p \<and> 4 \<le> card R}"


text \<open>
  A board with a row of three cells of colour 1 and an L-shaped group of four cells of
  colour 2, and a board with six groups of four cells (two colours in a chequered
  layout of 1 by 4 bars) in a game that has cleared four groups so far.
\<close>

definition L_game :: game where
  "L_game = empty_game\<lparr>
     board := (\<lambda>_. 0)((19,0) := 1, (19,1) := 1, (19,2) := 1,
                       (19,4) := 1, (19,5) := 1, (19,6) := 1, (18,4) := 1),
     board_color := (\<lambda>_. 0)((19,0) := 1, (19,1) := 1, (19,2) := 1,
                             (19,4) := 2, (19,5) := 2, (19,6) := 2, (18,4) := 2)\<rparr>"

definition six_game :: game where
  "six_game = empty_game\<lparr>
     board := (\<lambda>(y, x). if 17 \<le> y \<and> y \<le> 19 \<and> 0 \<le> x \<and> x \<le> 7 then 1 else 0),
     board_color := (\<lambda>(y, x). if 17 \<le> y \<and> y \<le> 19 \<and> 0 \<le> x \<and> x \<le> 7
                              then (if (x \<le> 3) = (y = 18) then 2 else 1) else 0),
     clears := 4\<rparr>"


text \<open>
  The colour invariant of the board (a cell of the board has colour 0 exactly when it is
  unoccupied), pieces whose occupied cells carry a colour in \<open>[1, K]\<close>, and the states
  the operations that write the board reach from the empty board; \<open>keep\<close> stands for
  every operation that leaves both arrays alone.
\<close>

definition board_inv :: "game \<Rightarrow> bool" where
  "board_inv s = (\<forall>p. in_bounds p \<longrightarrow> (board_color s p = 0 \<longleftrightarrow> board s p = 0))"

definition piece_colored :: "int \<Rightarrow> Block \<Rightarrow> bool" where
  "piece_colored K b =
     (1 \<le> K \<and> (\<forall>y \<in> {0, 1, 2}. \<forall>x \<in> {0, 1, 2}. cell (shape b) y x \<noteq> 0 \<longrightarrow>
                   1 \<le> cell (color b) y x \<and> cell (color b) y x \<le> K))"

inductive reachable :: "int \<Rightarrow> game \<Rightarrow> bool" for K :: int where
  start: "board s = (\<lambda>_. 0) \<Longrightarrow> board_color s = (\<lambda>_. 0) \<Longrightarrow> reachable K s"
| place: "reachable K s \<Longrightarrow> piece_colored K b \<Longrightarrow> reachable K (placeBlock b bx byy s)"
| clear: "reachable K s \<Longrightarrow> reachable K (snd (clearGroups m s))"
| fall: "reachable K s \<Longrightarrow> reachable K (snd (gravityFailSafe s))"
| keep: "reachable K s \<Longrightarrow> board s' = board s \<Longrightarrow> board_color s' = board_color s \<Longrightarrow> reachable K s'"


text \<open>
  Row \<open>r\<close> is where a cell that starts in row \<open>gy\<close> of column \<open>gx\<close> comes to rest when it
  slides down through empty cells: every cell it passes is empty, and the cell below
  \<open>r\<close> is occupied or off the board.
\<close>

definition ghost_row :: "grid \<Rightarrow> int \<Rightarrow> int \<Rightarrow> int \<Rightarrow> bool" where
  "ghost_row brd gx gy r =
     (gy \<le> r \<and> (\<forall>k. gy < k \<and> k \<le> r \<longrightarrow> brd (k, gx) = 0) \<and> (HEIGHT \<le> r + 1 \<or> brd (r + 1, gx) \<noteq> 0))"


text \<open>
  A position three dominoes into a game, no group cleared yet: a row of three cells of
  colour 1, a column of two cells beside it, one more cell. The current piece lies
  horizontally on top of the column, its cell of colour 1 hanging over the empty cell
  \<open>(18, 2)\<close> above the row of three.
\<close>

definition s_bug :: game where
  "s_bug = empty_game\<lparr>
     board := (\<lambda>_. 0)((19,0) := 1, (19,1) := 1, (19,2) := 1, (19,3) := 1, (18,3) := 1, (19,4) := 1),
     board_color := (\<lambda>_. 0)((19,0) := 1, (19,1) := 1, (19,2) := 1, (19,3) := 2, (18,3) := 3, (19,4) := 4),
     current := rotateLeft (makeBlock 4 0 1), cx := 2, cy := 16\<rparr>"


section \<open>Theorems\<close>

lemma local_cells_eq:
  "local_cells = [(0,0), (0,1), (0,2), (1,0), (1,1), (1,2), (2,0), (2,1), (2,2)]"
  by (simp add: local_cells_def upto_rec1)

subsection \<open>Rotation\<close>

lemma corners_empty_makeBlock: "corners_empty (makeBlock maxc r1 r2)"
  by (simp add: corners_empty_def makeBlock_def)

lemma corners_empty_rotateRight: "corners_empty (rotateRight b)"
  by (simp add: corners_empty_def rotateRight_def mk3_def isCorner_def)

lemma corners_empty_rotateLeft: "corners_empty (rotateLeft b)"
  by (simp add: corners_empty_def rotateLeft_def mk3_def isCorner_def)

text \<open>
  Every \<^verbatim>\<open>Block\<close> the program holds is a piece: \<^verbatim>\<open>makeBlock\<close> builds it, and the
  rotations are applied to copies of \<^verbatim>\<open>current\<close>. The corners of a piece are empty.
\<close>

lemma piece_corners_empty: "piece b \<Longrightarrow> corners_empty b"
  by (induction rule: piece.induct)
     (rule corners_empty_makeBlock corners_empty_rotateRight corners_empty_rotateLeft)+

text \<open>
  Claim C7. Four clockwise rotations, and four counter-clockwise rotations, give back
  the shape and colour matrices of every piece: of every \<^verbatim>\<open>Block\<close> whose four corner
  cells are empty, which is the invariant of the data model and holds for every piece
  the program builds (\<open>piece_corners_empty\<close>).
\<close>

theorem rotate_four_times:
  assumes "corners_empty b"
  shows "rotateRight (rotateRight (rotateRight (rotateRight b))) = b
       \<and> rotateLeft (rotateLeft (rotateLeft (rotateLeft b))) = b"
proof -
  obtain sh co where b: "b = \<lparr>shape = sh, color = co\<rparr>" by (cases b) simp
  obtain a00 a01 a02 a10 a11 a12 a20 a21 a22 where sh: "sh = Mat3 a00 a01 a02 a10 a11 a12 a20 a21 a22"
    by (cases sh) simp
  obtain c00 c01 c02 c10 c11 c12 c20 c21 c22 where co: "co = Mat3 c00 c01 c02 c10 c11 c12 c20 c21 c22"
    by (cases co) simp
  from assms show ?thesis
    by (simp add: b sh co corners_empty_def rotateRight_def rotateLeft_def mk3_def isCorner_def)
qed

theorem rotate_four_times_witness:
  "piece (rotateLeft (makeBlock 4 1 0)) \<and> corners_empty (rotateLeft (makeBlock 4 1 0))
   \<and> rotateRight (rotateRight (rotateRight (rotateRight (rotateLeft (makeBlock 4 1 0)))))
       = rotateLeft (makeBlock 4 1 0)
   \<and> rotateLeft (rotateLeft (rotateLeft (rotateLeft (rotateLeft (makeBlock 4 1 0)))))
       = rotateLeft (makeBlock 4 1 0)"
proof -
  have p: "piece (rotateLeft (makeBlock 4 1 0))" by (intro piece.left piece.made)
  from rotate_four_times [OF piece_corners_empty [OF p]] p piece_corners_empty [OF p]
  show ?thesis by simp
qed

text \<open>
  The hypothesis is there for \<^verbatim>\<open>Block\<close> values outside the data model only: both
  rotations write 0 into the corners, so a value with a filled corner, which no piece
  is, would not come back.
\<close>

lemma rotate_filled_corner:
  "rotateRight (rotateRight (rotateRight (rotateRight
       \<lparr>shape = Mat3 1 1 0 0 1 0 0 0 0, color = Mat3 3 1 0 0 2 0 0 0 0\<rparr>)))
     \<noteq> \<lparr>shape = Mat3 1 1 0 0 1 0 0 0 0, color = Mat3 3 1 0 0 2 0 0 0 0\<rparr>"
  by (simp add: rotateRight_def rotateLeft_def mk3_def isCorner_def)

subsection \<open>Collision\<close>

lemma set_local_cells: "set local_cells = {0, 1, 2} \<times> {0, 1, 2}"
  by (auto simp: local_cells_eq)

lemma Bex_Times: "(\<exists>(y, x) \<in> A \<times> B. P y x) \<longleftrightarrow> (\<exists>y \<in> A. \<exists>x \<in> B. P y x)"
  by auto

lemma checkCollision_loop_iff:
  "checkCollision_loop brd b nx ny ps \<longleftrightarrow>
     (\<exists>(y, x) \<in> set ps. cell (shape b) y x \<noteq> 0 \<and>
        (nx + x < 0 \<or> WIDTH \<le> nx + x \<or> HEIGHT \<le> ny + y \<or> (0 \<le> ny + y \<and> brd (ny + y, nx + x) \<noteq> 0)))"
  by (induction brd b nx ny ps rule: checkCollision_loop.induct) (auto simp: Let_def)

lemma checkCollision_cells:
  "checkCollision s b nx ny \<longleftrightarrow>
     (\<exists>y \<in> {0, 1, 2}. \<exists>x \<in> {0, 1, 2}. cell (shape b) y x \<noteq> 0 \<and>
        (nx + x < 0 \<or> WIDTH \<le> nx + x \<or> HEIGHT \<le> ny + y
         \<or> (0 \<le> ny + y \<and> board s (ny + y, nx + x) \<noteq> 0)))"
  unfolding checkCollision_def checkCollision_loop_iff set_local_cells
  by (rule Bex_Times)

text \<open>
  Claim C4. \<^verbatim>\<open>checkCollision\<close> reports a collision exactly when some occupied local
  cell \<open>(y, x)\<close> of the piece lies in a column outside \<open>[0, WIDTH)\<close>, or in a row
  \<open>\<ge> HEIGHT\<close>, or in a row \<open>\<ge> 0\<close> on an occupied board cell. In particular a piece whose
  occupied cells are all in columns of the board and in rows above the top (\<open>< 0\<close>)
  never collides, whatever the board holds.
\<close>

theorem checkCollision_iff:
  "(checkCollision s b nx ny \<longleftrightarrow>
     (\<exists>y \<in> {0, 1, 2}. \<exists>x \<in> {0, 1, 2}. cell (shape b) y x \<noteq> 0 \<and>
        (nx + x < 0 \<or> WIDTH \<le> nx + x \<or> HEIGHT \<le> ny + y
         \<or> (0 \<le> ny + y \<and> board s (ny + y, nx + x) \<noteq> 0))))
   \<and> ((\<forall>y \<in> {0, 1, 2}. \<forall>x \<in> {0, 1, 2}. cell (shape b) y x \<noteq> 0 \<longrightarrow>
          0 \<le> nx + x \<and> nx + x < WIDTH \<and> ny + y < 0)
        \<longrightarrow> \<not> checkCollision s b nx ny)"
proof -
  have "\<not> checkCollision s b nx ny"
    if "\<forall>y \<in> {0, 1, 2}. \<forall>x \<in> {0, 1, 2}. cell (shape b) y x \<noteq> 0 \<longrightarrow>
          0 \<le> nx + x \<and> nx + x < WIDTH \<and> ny + y < 0"
    unfolding checkCollision_cells using that by (fastforce simp del: insert_iff)
  with checkCollision_cells [of s b nx ny] show ?thesis by blast
qed

text \<open>
  On the full board the vertical piece two rows above the top does not collide; one row
  lower its centre cell is on row 0 and it does.
\<close>

theorem checkCollision_iff_witness:
  "\<not> checkCollision full_game (makeBlock 4 0 0) 4 (- 2)
   \<and> checkCollision full_game (makeBlock 4 0 0) 4 (- 1)"
proof -
  have h: "\<forall>y \<in> {0, 1, 2}. \<forall>x \<in> {0, 1, 2}. cell (shape (makeBlock 4 0 0)) y x \<noteq> 0 \<longrightarrow>
          0 \<le> 4 + x \<and> 4 + x < WIDTH \<and> - 2 + y < 0"
    by (simp add: makeBlock_def)
  from checkCollision_iff [of full_game "makeBlock 4 0 0" 4 "- 2"] h
  have "\<not> checkCollision full_game (makeBlock 4 0 0) 4 (- 2)" by blast
  moreover from checkCollision_iff [of full_game "makeBlock 4 0 0" 4 "- 1"]
  have "checkCollision full_game (makeBlock 4 0 0) 4 (- 1)"
    by (simp add: makeBlock_def full_game_def empty_game_def)
  ultimately show ?thesis by simp
qed

subsection \<open>Rotation kicks\<close>

text \<open>
  Claim C5. \<^verbatim>\<open>attemptRotation\<close> tests the rotated piece at the offsets \<open>(0,0)\<close>,
  \<open>(-1,0)\<close>, \<open>(+1,0)\<close>, \<open>(0,-1)\<close>, \<open>(-1,-1)\<close>, \<open>(+1,-1)\<close> in this order; at the first one
  without collision it returns success with the position moved by that offset and
  \<^verbatim>\<open>current\<close> set to the rotated piece; when all six collide it returns failure with the
  position and every global as they were.
\<close>

theorem attemptRotation_order:
  "attemptRotation r nx ny s =
     (if \<not> checkCollision s r nx ny then (True, nx, ny, s\<lparr>current := r\<rparr>)
      else if \<not> checkCollision s r (nx - 1) ny then (True, nx - 1, ny, s\<lparr>current := r\<rparr>)
      else if \<not> checkCollision s r (nx + 1) ny then (True, nx + 1, ny, s\<lparr>current := r\<rparr>)
      else if \<not> checkCollision s r nx (ny - 1) then (True, nx, ny - 1, s\<lparr>current := r\<rparr>)
      else if \<not> checkCollision s r (nx - 1) (ny - 1) then (True, nx - 1, ny - 1, s\<lparr>current := r\<rparr>)
      else if \<not> checkCollision s r (nx + 1) (ny - 1) then (True, nx + 1, ny - 1, s\<lparr>current := r\<rparr>)
      else (False, nx, ny, s))"
  by (simp add: attemptRotation_def offsets_def Let_def)

subsection \<open>Hard drop\<close>

lemma checkCollision_cy_upd [simp]: "checkCollision (s\<lparr>cy := c\<rparr>) b nx ny = checkCollision s b nx ny"
  by (simp add: checkCollision_def)

lemma checkCollision_floor:
  assumes "y \<in> {0, 1, 2}" "x \<in> {0, 1, 2}" "cell (shape b) y x \<noteq> 0" "HEIGHT \<le> ny + y"
  shows "checkCollision s b nx ny"
  using assms checkCollision_cells [of s b nx ny] by blast

lemma hardDrop_steps:
  assumes "y \<in> {0, 1, 2}" "x \<in> {0, 1, 2}" "cell (shape (current s)) y x \<noteq> 0"
    and "n = nat (HEIGHT - cy s)"
  shows "\<exists>k\<ge>0. hardDrop s = Some (s\<lparr>cy := cy s + k\<rparr>)
           \<and> checkCollision s (current s) (cx s) (cy s + k + 1)"
  using assms
proof (induction n arbitrary: s rule: less_induct)
  case (less n)
  show ?case
  proof (cases "checkCollision s (current s) (cx s) (cy s + 1)")
    case True
    then have "hardDrop s = Some (s\<lparr>cy := cy s + 0\<rparr>)"
      by (subst hardDrop.simps) simp
    with True show ?thesis by (intro exI [of _ 0]) simp
  next
    case False
    have lt: "cy s + 1 + y < HEIGHT"
    proof (rule ccontr)
      assume "\<not> cy s + 1 + y < HEIGHT"
      then have "HEIGHT \<le> cy s + 1 + y" by simp
      from checkCollision_floor [OF less.prems(1,2,3) this] False show False by blast
    qed
    let ?s1 = "s\<lparr>cy := cy s + 1\<rparr>"
    from lt less.prems(1) have "nat (HEIGHT - cy ?s1) < n"
      unfolding less.prems(4) by auto
    from less.IH [OF this less.prems(1,2) _ refl] less.prems(3)
    obtain k where k: "0 \<le> k" "hardDrop ?s1 = Some (?s1\<lparr>cy := cy ?s1 + k\<rparr>)"
      "checkCollision ?s1 (current ?s1) (cx ?s1) (cy ?s1 + k + 1)" by auto
    from False have "hardDrop s = hardDrop ?s1" by (subst hardDrop.simps) simp
    with k have "hardDrop s = Some (s\<lparr>cy := cy s + (k + 1)\<rparr>)"
      "checkCollision s (current s) (cx s) (cy s + (k + 1) + 1)"
      by (simp_all add: add.assoc add.commute)
    with k(1) show ?thesis by (intro exI [of _ "k + 1"]) simp
  qed
qed

text \<open>
  Claim C10. When the current piece has an occupied cell (at some local \<open>(y, x)\<close>),
  \<^verbatim>\<open>hardDrop\<close> returns from every starting position; in the state it returns the piece
  collides one row further down, \<^verbatim>\<open>cy\<close> has not decreased, and nothing but \<^verbatim>\<open>cy\<close> has
  changed: not the board, not \<^verbatim>\<open>cx\<close>, not the piece.
\<close>

theorem hardDrop_terminates:
  assumes "y \<in> {0, 1, 2}" "x \<in> {0, 1, 2}" "cell (shape (current s)) y x \<noteq> 0"
  shows "\<exists>s'. hardDrop s = Some s'
           \<and> checkCollision s' (current s') (cx s') (cy s' + 1)
           \<and> cy s \<le> cy s' \<and> s' = s\<lparr>cy := cy s'\<rparr>
           \<and> board s' = board s \<and> board_color s' = board_color s
           \<and> cx s' = cx s \<and> current s' = current s"
proof -
  from hardDrop_steps [OF assms refl]
  obtain k where "0 \<le> k" "hardDrop s = Some (s\<lparr>cy := cy s + k\<rparr>)"
    "checkCollision s (current s) (cx s) (cy s + k + 1)" by auto
  then show ?thesis by simp
qed

theorem hardDrop_terminates_witness:
  "cell (shape (current empty_game)) 0 1 \<noteq> 0
   \<and> (\<exists>s'. hardDrop empty_game = Some s'
           \<and> checkCollision s' (current s') (cx s') (cy s' + 1)
           \<and> cy empty_game \<le> cy s' \<and> s' = empty_game\<lparr>cy := cy s'\<rparr>
           \<and> board s' = board empty_game \<and> board_color s' = board_color empty_game
           \<and> cx s' = cx empty_game \<and> current s' = current empty_game)"
proof -
  have h: "cell (shape (current empty_game)) 0 1 \<noteq> 0"
    by (simp add: empty_game_def makeBlock_def)
  from hardDrop_terminates [of 0 1 empty_game, OF _ _ h] h show ?thesis by simp
qed

subsection \<open>The depth-first search collects the region of its start cell\<close>

lemma marked_upd: "marked (vis(p := 1)) = insert p (marked vis)"
  by (auto simp: marked_def)

lemma dfs_skip_pair:
  "\<not> (in_bounds (y, x) \<and> brd (y, x) \<noteq> 0 \<and> col (y, x) = c \<and> vis (y, x) = 0)
     \<Longrightarrow> dfs brd col y x c (vis, cs) = (vis, cs)"
  by (auto simp: dfs.simps [of brd col y x c vis cs] in_bounds_def)

lemma dfs_skip:
  "\<not> (in_bounds (y, x) \<and> brd (y, x) \<noteq> 0 \<and> col (y, x) = c \<and> fst vc (y, x) = 0)
     \<Longrightarrow> dfs brd col y x c vc = vc"
  using dfs_skip_pair [of y x brd col c "fst vc" "snd vc"] by simp

lemma dfs_rec_pair:
  "in_bounds (y, x) \<Longrightarrow> brd (y, x) \<noteq> 0 \<Longrightarrow> col (y, x) = c \<Longrightarrow> vis (y, x) = 0
     \<Longrightarrow> dfs brd col y x c (vis, cs) =
         dfs brd col y (x - 1) c
           (dfs brd col y (x + 1) c
             (dfs brd col (y - 1) x c
               (dfs brd col (y + 1) x c (vis((y, x) := 1), cs @ [(y, x)]))))"
  by (simp add: dfs.simps [of brd col y x c vis cs] in_bounds_def)

lemma dfs_rec:
  "in_bounds (y, x) \<Longrightarrow> brd (y, x) \<noteq> 0 \<Longrightarrow> col (y, x) = c \<Longrightarrow> fst vc (y, x) = 0
     \<Longrightarrow> dfs brd col y x c vc =
         dfs brd col y (x - 1) c
           (dfs brd col y (x + 1) c
             (dfs brd col (y - 1) x c
               (dfs brd col (y + 1) x c ((fst vc)((y, x) := 1), snd vc @ [(y, x)]))))"
  using dfs_rec_pair [of y x brd col c "fst vc" "snd vc"] by simp

text \<open>An induction rule for dfs in terms of the four neighbour calls.\<close>

lemma dfs_induct [case_names skip rec]:
  assumes skip: "\<And>y x vc. \<not> (in_bounds (y, x) \<and> brd (y, x) \<noteq> 0 \<and> col (y, x) = c \<and> fst vc (y, x) = 0)
            \<Longrightarrow> P y x vc"
    and step: "\<And>y x vc st0 st1 st2 st3.
            in_bounds (y, x) \<Longrightarrow> brd (y, x) \<noteq> 0 \<Longrightarrow> col (y, x) = c \<Longrightarrow> fst vc (y, x) = 0 \<Longrightarrow>
            st0 = ((fst vc)((y, x) := 1), snd vc @ [(y, x)]) \<Longrightarrow>
            st1 = dfs brd col (y + 1) x c st0 \<Longrightarrow>
            st2 = dfs brd col (y - 1) x c st1 \<Longrightarrow>
            st3 = dfs brd col y (x + 1) c st2 \<Longrightarrow>
            dfs brd col y x c vc = dfs brd col y (x - 1) c st3 \<Longrightarrow>
            P (y + 1) x st0 \<Longrightarrow> P (y - 1) x st1 \<Longrightarrow> P y (x + 1) st2 \<Longrightarrow> P y (x - 1) st3
            \<Longrightarrow> P y x vc"
  shows "P y x vc"
proof -
  have "b = brd \<Longrightarrow> cl = col \<Longrightarrow> c' = c \<Longrightarrow> P y x vc" for b cl c'
  proof (induction b cl y x c' vc rule: dfs.induct)
    case (1 b cl y x c' vis coords)
    note [simp] = "1.prems"
    show ?case
    proof (cases "in_bounds (y, x) \<and> brd (y, x) \<noteq> 0 \<and> col (y, x) = c \<and> vis (y, x) = 0")
      case False
      then show ?thesis by (intro skip) simp
    next
      case True
      then have g1: "\<not> (y < 0 \<or> HEIGHT \<le> y \<or> x < 0 \<or> WIDTH \<le> x)"
        and g2: "\<not> (b (y, x) = 0 \<or> cl (y, x) \<noteq> c' \<or> vis (y, x) \<noteq> 0)"
        by (auto simp: in_bounds_def)
      have e: "dfs brd col y x c (vis, coords) =
           dfs brd col y (x - 1) c
             (dfs brd col y (x + 1) c
               (dfs brd col (y - 1) x c
                 (dfs brd col (y + 1) x c ((fst (vis, coords))((y, x) := 1), snd (vis, coords) @ [(y, x)]))))"
        unfolding fst_conv snd_conv by (rule dfs_rec_pair) (use True in simp_all)
      from True have t: "in_bounds (y, x)" "brd (y, x) \<noteq> 0" "col (y, x) = c" "fst (vis, coords) (y, x) = 0"
        by simp_all
      show ?thesis
        by (rule step [OF t refl refl refl refl e])
           (use "1.IH" [OF g1 g2] "1.prems" in \<open>simp_all only: fst_conv snd_conv\<close>)
    qed
  qed
  then show ?thesis by simp
qed

lemma dfs_marked_mono: "marked (fst vc) \<subseteq> marked (fst (dfs brd col y x c vc))"
proof (induction y x vc rule: dfs_induct [where brd = brd and col = col and c = c])
  case (skip y x vc)
  then show ?case by (simp add: dfs_skip)
next
  case (rec y x vc st0 st1 st2 st3)
  from rec(5) have "marked (fst vc) \<subseteq> marked (fst st0)" by (auto simp: marked_def)
  also have "\<dots> \<subseteq> marked (fst st1)" unfolding rec(6) by (rule rec(10))
  also have "\<dots> \<subseteq> marked (fst st2)" unfolding rec(7) by (rule rec(11))
  also have "\<dots> \<subseteq> marked (fst st3)" unfolding rec(8) by (rule rec(12))
  also have "\<dots> \<subseteq> marked (fst (dfs brd col y (x - 1) c st3))" by (rule rec(13))
  finally show ?case unfolding rec(9) .
qed


lemma dfs_marks_start:
  assumes "in_bounds (y, x)" "brd (y, x) \<noteq> 0" "col (y, x) = c"
  shows "(y, x) \<in> marked (fst (dfs brd col y x c vc))"
proof (cases "fst vc (y, x) = 0")
  case False
  then have "(y, x) \<in> marked (fst vc)" by (simp add: marked_def)
  with dfs_marked_mono show ?thesis by blast
next
  case True
  have "(y, x) \<in> marked (fst ((fst vc)((y, x) := 1), snd vc @ [(y, x)]))"
    by (simp add: marked_def)
  also note dfs_marked_mono
  also note dfs_marked_mono
  also note dfs_marked_mono
  also note dfs_marked_mono
  finally show ?thesis unfolding dfs_rec [of y x brd col c vc, OF assms True] .
qed

lemma diff_chain: "A \<subseteq> B \<Longrightarrow> B \<subseteq> C \<Longrightarrow> (B - A) \<union> (C - B) = C - A"
  by blast

lemma diff_disjoint: "B \<subseteq> C \<Longrightarrow> (B - A) \<inter> (D - C) = {}"
  by blast

lemma dfs_coords:
  "\<exists>new. snd (dfs brd col y x c vc) = snd vc @ new \<and> distinct new
      \<and> set new = marked (fst (dfs brd col y x c vc)) - marked (fst vc)"
proof (induction y x vc rule: dfs_induct [where brd = brd and col = col and c = c])
  case (skip y x vc)
  then show ?case by (simp add: dfs_skip)
next
  case (rec y x vc st0 st1 st2 st3)
  define st4 where "st4 = dfs brd col y (x - 1) c st3"
  define M where "M = marked (fst vc)"
  define M0 where "M0 = marked (fst st0)"
  define M1 where "M1 = marked (fst st1)"
  define M2 where "M2 = marked (fst st2)"
  define M3 where "M3 = marked (fst st3)"
  define M4 where "M4 = marked (fst st4)"
  from rec(10) [folded rec(6)] obtain n1 where
    n1: "snd st1 = snd st0 @ n1" "distinct n1" "set n1 = M1 - M0" unfolding M1_def M0_def by blast
  from rec(11) [folded rec(7)] obtain n2 where
    n2: "snd st2 = snd st1 @ n2" "distinct n2" "set n2 = M2 - M1" unfolding M1_def M2_def by blast
  from rec(12) [folded rec(8)] obtain n3 where
    n3: "snd st3 = snd st2 @ n3" "distinct n3" "set n3 = M3 - M2" unfolding M3_def M2_def by blast
  from rec(13) [folded st4_def] obtain n4 where
    n4: "snd st4 = snd st3 @ n4" "distinct n4" "set n4 = M4 - M3" unfolding M3_def M4_def by blast
  have m0: "M0 = insert (y, x) M" "(y, x) \<notin> M"
    using rec(4,5) by (auto simp: marked_def M_def M0_def)
  have m1: "M0 \<subseteq> M1" unfolding rec(6) M0_def M1_def by (rule dfs_marked_mono)
  have m2: "M1 \<subseteq> M2" unfolding rec(7) M1_def M2_def by (rule dfs_marked_mono)
  have m3: "M2 \<subseteq> M3" unfolding rec(8) M2_def M3_def by (rule dfs_marked_mono)
  have m4: "M3 \<subseteq> M4" unfolding st4_def M3_def M4_def by (rule dfs_marked_mono)
  let ?new = "(y, x) # n1 @ n2 @ n3 @ n4"
  have a: "snd st4 = snd vc @ ?new" using n1(1) n2(1) n3(1) n4(1) rec(5) by simp
  have p0: "(y, x) \<in> M0" using m0(1) by simp
  with m1 have p1: "(y, x) \<in> M1" by blast
  with m2 have p2: "(y, x) \<in> M2" by blast
  with m3 have p3: "(y, x) \<in> M3" by blast
  with m4 have p4: "(y, x) \<in> M4" by blast
  have d0: "(y, x) \<notin> set n1" "(y, x) \<notin> set n2" "(y, x) \<notin> set n3" "(y, x) \<notin> set n4"
    using p0 p1 p2 p3 by (simp_all add: n1(3) n2(3) n3(3) n4(3))
  have m13: "M1 \<subseteq> M3" using m2 m3 by (rule subset_trans)
  have d1: "set n1 \<inter> set n2 = {}" "set n1 \<inter> set n3 = {}" "set n1 \<inter> set n4 = {}"
    "set n2 \<inter> set n3 = {}" "set n2 \<inter> set n4 = {}" "set n3 \<inter> set n4 = {}"
    unfolding n1(3) n2(3) n3(3) n4(3)
    using diff_disjoint [OF subset_refl, of M1 M0 M2] diff_disjoint [OF m2, of M0 M3]
      diff_disjoint [OF m13, of M0 M4] diff_disjoint [OF subset_refl, of M2 M1 M3]
      diff_disjoint [OF m3, of M1 M4] diff_disjoint [OF subset_refl, of M3 M2 M4]
    by simp_all
  have b: "distinct ?new"
    using n1(2) n2(2) n3(2) n4(2) d0 d1 by (simp add: Int_Un_distrib)
  have "set n1 \<union> set n2 \<union> set n3 \<union> set n4 = M4 - M0"
    unfolding n1(3) n2(3) n3(3) n4(3)
    using diff_chain [OF m1 m2] diff_chain [OF subset_trans [OF m1 m2] m3]
      diff_chain [OF subset_trans [OF subset_trans [OF m1 m2] m3] m4] by simp
  moreover have "insert (y, x) (M4 - M0) = M4 - M" using p4 m0 by blast
  ultimately have c: "set ?new = M4 - M" by (simp add: Un_assoc)
  from a b c show ?case unfolding rec(9) st4_def [symmetric] M4_def M_def by blast
qed

lemma link_step:
  assumes "in_bounds p" "brd p \<noteq> 0" "in_bounds q" "brd q \<noteq> 0" "col q = col p" "adjacent p q"
    and "(q, r) \<in> (link brd col)\<^sup>*"
  shows "(p, r) \<in> (link brd col)\<^sup>*"
proof -
  from assms(1-6) have "(p, q) \<in> link brd col" by (simp add: link_def)
  from this assms(7) show ?thesis by (rule converse_rtrancl_into_rtrancl)
qed

lemma dfs_sound:
  "\<forall>q. q \<in> marked (fst (dfs brd col y x c vc)) \<longrightarrow> q \<notin> marked (fst vc) \<longrightarrow>
     in_bounds q \<and> brd q \<noteq> 0 \<and> col q = c \<and> ((y, x), q) \<in> (link brd col)\<^sup>*
     \<and> in_bounds (y, x) \<and> brd (y, x) \<noteq> 0 \<and> col (y, x) = c"
proof (induction y x vc rule: dfs_induct [where brd = brd and col = col and c = c])
  case (skip y x vc)
  then show ?case by (simp add: dfs_skip)
next
  case (rec y x vc st0 st1 st2 st3)
  define st4 where "st4 = dfs brd col y (x - 1) c st3"
  note ih1 = rec(10) [folded rec(6)] and ih2 = rec(11) [folded rec(7)]
    and ih3 = rec(12) [folded rec(8)] and ih4 = rec(13) [folded st4_def]
  have m0: "marked (fst st0) = insert (y, x) (marked (fst vc))"
    using rec(5) by (auto simp: marked_def)
  have adj: "adjacent (y, x) (y + 1, x)" "adjacent (y, x) (y - 1, x)"
    "adjacent (y, x) (y, x + 1)" "adjacent (y, x) (y, x - 1)"
    by (simp_all add: adjacent_def)
  show ?case unfolding rec(9) st4_def [symmetric]
  proof (intro allI impI)
    fix q assume q: "q \<in> marked (fst st4)" "q \<notin> marked (fst vc)"
    consider "q = (y, x)" | "q \<in> marked (fst st1)" "q \<notin> marked (fst st0)"
      | "q \<in> marked (fst st2)" "q \<notin> marked (fst st1)"
      | "q \<in> marked (fst st3)" "q \<notin> marked (fst st2)"
      | "q \<in> marked (fst st4)" "q \<notin> marked (fst st3)"
      using q m0 by blast
    then show "in_bounds q \<and> brd q \<noteq> 0 \<and> col q = c \<and> ((y, x), q) \<in> (link brd col)\<^sup>*
       \<and> in_bounds (y, x) \<and> brd (y, x) \<noteq> 0 \<and> col (y, x) = c"
    proof cases
      case 1
      with rec(1-3) show ?thesis by simp
    next
      case 2
      with ih1 rec(1-3) link_step [where p = "(y, x)" and q = "(y + 1, x)" and brd = brd and col = col and r = q, OF rec(1,2) _ _ _ adj(1)] show ?thesis by blast
    next
      case 3
      with ih2 rec(1-3) link_step [where p = "(y, x)" and q = "(y - 1, x)" and brd = brd and col = col and r = q, OF rec(1,2) _ _ _ adj(2)] show ?thesis by blast
    next
      case 4
      with ih3 rec(1-3) link_step [where p = "(y, x)" and q = "(y, x + 1)" and brd = brd and col = col and r = q, OF rec(1,2) _ _ _ adj(3)] show ?thesis by blast
    next
      case 5
      with ih4 rec(1-3) link_step [where p = "(y, x)" and q = "(y, x - 1)" and brd = brd and col = col and r = q, OF rec(1,2) _ _ _ adj(4)] show ?thesis by blast
    qed
  qed
qed

lemma adjacent_cases:
  "adjacent (y, x) r \<longleftrightarrow> r = (y + 1, x) \<or> r = (y - 1, x) \<or> r = (y, x + 1) \<or> r = (y, x - 1)"
  by (cases r) (auto simp: adjacent_def)

lemma dfs_closed:
  "\<forall>q r. q \<in> marked (fst (dfs brd col y x c vc)) \<longrightarrow> q \<notin> marked (fst vc) \<longrightarrow>
     adjacent q r \<longrightarrow> in_bounds r \<longrightarrow> brd r \<noteq> 0 \<longrightarrow> col r = c \<longrightarrow>
     r \<in> marked (fst (dfs brd col y x c vc))"
proof (induction y x vc rule: dfs_induct [where brd = brd and col = col and c = c])
  case (skip y x vc)
  then show ?case by (simp add: dfs_skip)
next
  case (rec y x vc st0 st1 st2 st3)
  define st4 where "st4 = dfs brd col y (x - 1) c st3"
  note ih1 = rec(10) [folded rec(6)] and ih2 = rec(11) [folded rec(7)]
    and ih3 = rec(12) [folded rec(8)] and ih4 = rec(13) [folded st4_def]
  have m0: "marked (fst st0) = insert (y, x) (marked (fst vc))"
    using rec(5) by (auto simp: marked_def)
  have m1: "marked (fst st0) \<subseteq> marked (fst st1)" unfolding rec(6) by (rule dfs_marked_mono)
  have m2: "marked (fst st1) \<subseteq> marked (fst st2)" unfolding rec(7) by (rule dfs_marked_mono)
  have m3: "marked (fst st2) \<subseteq> marked (fst st3)" unfolding rec(8) by (rule dfs_marked_mono)
  have m4: "marked (fst st3) \<subseteq> marked (fst st4)" unfolding st4_def by (rule dfs_marked_mono)
  show ?case unfolding rec(9) st4_def [symmetric]
  proof (intro allI impI)
    fix q r assume q: "q \<in> marked (fst st4)" "q \<notin> marked (fst vc)"
      and r: "adjacent q r" "in_bounds r" "brd r \<noteq> 0" "col r = c"
    consider "q = (y, x)" | "q \<in> marked (fst st1)" "q \<notin> marked (fst st0)"
      | "q \<in> marked (fst st2)" "q \<notin> marked (fst st1)"
      | "q \<in> marked (fst st3)" "q \<notin> marked (fst st2)"
      | "q \<in> marked (fst st4)" "q \<notin> marked (fst st3)"
      using q m0 by blast
    then show "r \<in> marked (fst st4)"
    proof cases
      case 1
      with r(1) consider "r = (y + 1, x)" | "r = (y - 1, x)" | "r = (y, x + 1)" | "r = (y, x - 1)"
        by (auto simp: adjacent_cases)
      then show ?thesis
      proof cases
        case 1
        with r have "r \<in> marked (fst st1)" unfolding rec(6) by (simp add: dfs_marks_start)
        with m2 m3 m4 show ?thesis by blast
      next
        case 2
        with r have "r \<in> marked (fst st2)" unfolding rec(7) by (simp add: dfs_marks_start)
        with m3 m4 show ?thesis by blast
      next
        case 3
        with r have "r \<in> marked (fst st3)" unfolding rec(8) by (simp add: dfs_marks_start)
        with m4 show ?thesis by blast
      next
        case 4
        with r show ?thesis unfolding st4_def by (simp add: dfs_marks_start)
      qed
    next
      case 2
      with ih1 r have "r \<in> marked (fst st1)" by blast
      with m2 m3 m4 show ?thesis by blast
    next
      case 3
      with ih2 r have "r \<in> marked (fst st2)" by blast
      with m3 m4 show ?thesis by blast
    next
      case 4
      with ih3 r have "r \<in> marked (fst st3)" by blast
      with m4 show ?thesis by blast
    next
      case 5
      with ih4 r show ?thesis by blast
    qed
  qed
qed

lemma adjacent_sym: "adjacent p q \<Longrightarrow> adjacent q p"
  by (auto simp: adjacent_def)

lemma sym_link: "sym (link brd col)"
  by (auto simp: sym_def link_def adjacent_sym)

lemma region_refl: "p \<in> region brd col p"
  by (simp add: region_def)

lemma region_sym: "q \<in> region brd col p \<Longrightarrow> p \<in> region brd col q"
  unfolding region_def using sym_rtrancl [OF sym_link, of brd col] by (auto dest: symD)

lemma region_trans: "q \<in> region brd col p \<Longrightarrow> r \<in> region brd col q \<Longrightarrow> r \<in> region brd col p"
  unfolding region_def by auto

lemma region_eq: "q \<in> region brd col p \<Longrightarrow> region brd col q = region brd col p"
  using region_sym region_trans by blast

lemma region_subset: "region brd col p \<subseteq> insert p {q. in_bounds q \<and> brd q \<noteq> 0}"
proof
  fix q assume "q \<in> region brd col p"
  then have "(p, q) \<in> (link brd col)\<^sup>*" by (simp add: region_def)
  then show "q \<in> insert p {q. in_bounds q \<and> brd q \<noteq> 0}"
    by (induction rule: rtrancl_induct) (auto simp: link_def)
qed

lemma finite_region: "finite (region brd col p)"
proof -
  have "finite (insert p {q. in_bounds q \<and> brd q \<noteq> 0})"
    using finite_subset [OF _ finite_in_bounds, of "{q. in_bounds q \<and> brd q \<noteq> 0}"] by auto
  with region_subset show ?thesis by (rule finite_subset)
qed

lemma zero_cells_apply: "zero_cells coords g q = (if q \<in> set coords then 0 else g q)"
  unfolding zero_cells_def by (induction coords arbitrary: g) auto


lemma dfs_region:
  assumes closed: "\<forall>p \<in> marked vis. region B0 C0 p \<subseteq> marked vis"
    and brd: "\<forall>p. brd p = (if p \<in> marked vis \<and> 4 \<le> card (region B0 C0 p) then 0 else B0 p)"
    and col: "\<forall>p. col p = (if p \<in> marked vis \<and> 4 \<le> card (region B0 C0 p) then 0 else C0 p)"
    and p: "in_bounds (y, x)" "brd (y, x) \<noteq> 0" "vis (y, x) = 0"
  shows "marked (fst (dfs brd col y x (col (y, x)) (vis, []))) = marked vis \<union> region B0 C0 (y, x)"
    and "distinct (snd (dfs brd col y x (col (y, x)) (vis, [])))"
    and "set (snd (dfs brd col y x (col (y, x)) (vis, []))) = region B0 C0 (y, x)"
proof -
  define r where "r = dfs brd col y x (col (y, x)) (vis, [])"
  define N where "N = marked (fst r) - marked vis"
  have pn: "(y, x) \<notin> marked vis" using p(3) by (simp add: marked_def)
  have keep: "B0 a \<noteq> 0 \<and> brd a = B0 a \<and> col a = C0 a" if "brd a \<noteq> 0" for a
    using that brd [rule_format, of a] col [rule_format, of a] by (auto split: if_splits)
  have unvis: "brd a = B0 a \<and> col a = C0 a" if "a \<notin> marked vis" for a
    using that brd [rule_format, of a] col [rule_format, of a] by simp
  have "link brd col \<subseteq> link B0 C0"
    using keep by (fastforce simp: link_def)
  then have mono: "(link brd col)\<^sup>* \<subseteq> (link B0 C0)\<^sup>*" by (rule rtrancl_mono)
  have mm: "marked vis \<subseteq> marked (fst r)"
    unfolding r_def using dfs_marked_mono [of "(vis, [])" brd col y x "col (y, x)"] by simp
  have snd_N: "in_bounds q \<and> brd q \<noteq> 0 \<and> col q = col (y, x)
      \<and> ((y, x), q) \<in> (link brd col)\<^sup>*" if "q \<in> N" for q
  proof -
    from that have "q \<in> marked (fst (dfs brd col y x (col (y, x)) (vis, [])))"
      "q \<notin> marked (fst (vis, []))" by (simp_all add: N_def r_def)
    with dfs_sound [of brd col y x "col (y, x)" "(vis, [])", rule_format, of q]
    show ?thesis by blast
  qed
  have sub: "N \<subseteq> region B0 C0 (y, x)"
  proof
    fix q assume "q \<in> N"
    with snd_N have "((y, x), q) \<in> (link brd col)\<^sup>*" by blast
    with mono have "((y, x), q) \<in> (link B0 C0)\<^sup>*" by (rule subsetD)
    then show "q \<in> region B0 C0 (y, x)" by (simp add: region_def)
  qed
  have closed': "b \<in> marked (fst r)"
    if "a \<in> marked (fst r)" "a \<notin> marked vis" "adjacent a b" "in_bounds b" "brd b \<noteq> 0"
      "col b = col (y, x)" for a b
    using dfs_closed [of brd col y x "col (y, x)" "(vis, [])", rule_format, of a b] that
    unfolding r_def fst_conv by blast
  have sup: "q \<in> N" if "((y, x), q) \<in> (link B0 C0)\<^sup>*" for q
    using that
  proof (induction rule: rtrancl_induct)
    case base
    have "(y, x) \<in> marked (fst r)" unfolding r_def using p by (intro dfs_marks_start) simp_all
    with pn show ?case by (simp add: N_def)
  next
    case (step a b)
    from step(1,2) have "b \<in> region B0 C0 (y, x)" by (simp add: region_def)
    then have "(y, x) \<in> region B0 C0 b" by (rule region_sym)
    with closed pn have bn: "b \<notin> marked vis" by blast
    from step(3) have an: "a \<notin> marked vis" by (simp add: N_def)
    from step(2) have l: "in_bounds b" "B0 b \<noteq> 0" "C0 b = C0 a" "adjacent a b"
      by (auto simp: link_def)
    from unvis [OF bn] unvis [OF an] snd_N [OF step(3)] l
    have "brd b \<noteq> 0" "col b = col (y, x)" by simp_all
    moreover from step(3) have "a \<in> marked (fst r)" "a \<notin> marked vis" by (simp_all add: N_def)
    ultimately have "b \<in> marked (fst r)" using l(1,4) by (intro closed' [of a b])
    with bn show ?case by (simp add: N_def)
  qed
  from sup have "region B0 C0 (y, x) \<subseteq> N" by (auto simp: region_def)
  with sub have N: "N = region B0 C0 (y, x)" by (rule equalityI)
  from mm N show "marked (fst (dfs brd col y x (col (y, x)) (vis, []))) = marked vis \<union> region B0 C0 (y, x)"
    unfolding N_def r_def by blast
  from dfs_coords [of brd col y x "col (y, x)" "(vis, [])"]
  obtain new where "snd r = new" "distinct new" "set new = N"
    unfolding N_def r_def by auto
  with N show "distinct (snd (dfs brd col y x (col (y, x)) (vis, [])))"
    and "set (snd (dfs brd col y x (col (y, x)) (vis, []))) = region B0 C0 (y, x)"
    unfolding r_def by simp_all
qed

lemma finite_big_regions: "finite V \<Longrightarrow> finite (big_regions brd col V)"
  by (simp add: big_regions_def)

lemma region_image: "region brd col ` region brd col p = {region brd col p}"
proof -
  have "region brd col q = region brd col p" if "q \<in> region brd col p" for q
    using that by (rule region_eq)
  moreover have "p \<in> region brd col p" by (rule region_refl)
  ultimately show ?thesis by (intro equalityI subsetI) (blast, force)
qed

lemma big_regions_add_big:
  "4 \<le> card (region brd col p) \<Longrightarrow>
     big_regions brd col (V \<union> region brd col p) = insert (region brd col p) (big_regions brd col V)"
  unfolding big_regions_def image_Un region_image by blast

lemma big_regions_add_small:
  "\<not> 4 \<le> card (region brd col p) \<Longrightarrow>
     big_regions brd col (V \<union> region brd col p) = big_regions brd col V"
  unfolding big_regions_def image_Un region_image by blast


subsection \<open>The scan of \<^verbatim>\<open>clearGroups\<close>\<close>

lemma finite_marked: "marked vis \<subseteq> {p. in_bounds p \<and> B0 p \<noteq> 0} \<Longrightarrow> finite (marked vis)"
  by (rule finite_subset [OF _ finite_in_bounds]) auto

lemma region_not_big:
  assumes closed: "\<forall>q \<in> V. region brd col q \<subseteq> V" and p: "p \<notin> V"
  shows "region brd col p \<notin> big_regions brd col V"
proof
  assume "region brd col p \<in> big_regions brd col V"
  then obtain q where "q \<in> V" "region brd col p = region brd col q"
    by (auto simp: big_regions_def)
  with closed region_refl [of p brd col] p show False by blast
qed

lemma clear_cell_skip:
  "\<not> (board s (y, x) \<noteq> 0 \<and> visited s (y, x) = 0)
     \<Longrightarrow> clear_cell m (y, x) (s, tot, grp) = (s, tot, grp)"
  by (auto simp: clear_cell_def)

lemma clear_cell_big:
  assumes "board s (y, x) \<noteq> 0" "visited s (y, x) = 0"
    and "dfs (board s) (board_color s) y x (board_color s (y, x)) (visited s, []) = (vis, coords)"
    and "4 \<le> int (length coords)"
  shows "clear_cell m (y, x) (s, tot, grp) =
     (s\<lparr>visited := vis, board := zero_cells coords (board s),
        board_color := zero_cells coords (board_color s),
        score := score s + c_trunc (of_int (int (length coords) * 100) * m)\<rparr>,
      tot + int (length coords), grp + 1)"
  using assms by (simp add: clear_cell_def Let_def)

lemma clear_cell_small:
  assumes "board s (y, x) \<noteq> 0" "visited s (y, x) = 0"
    and "dfs (board s) (board_color s) y x (board_color s (y, x)) (visited s, []) = (vis, coords)"
    and "\<not> 4 \<le> int (length coords)"
  shows "clear_cell m (y, x) (s, tot, grp) = (s\<lparr>visited := vis\<rparr>, tot, grp)"
  using assms by (simp add: clear_cell_def Let_def)

lemma clear_cell_inv:
  assumes inv: "scan_inv B0 C0 sc0 m dn st" and pb: "in_bounds p"
  shows "scan_inv B0 C0 sc0 m (insert p dn) (clear_cell m p st)"
proof -
  obtain s tot grp where st: "st = (s, tot, grp)" by (cases st) auto
  obtain y x where p: "p = (y, x)" by (cases p) auto
  define V where "V = marked (visited s)"
  define R where "R = region B0 C0 (y, x)"
  from inv have
    i1: "V \<subseteq> {p. in_bounds p \<and> B0 p \<noteq> 0}" and
    i2: "\<forall>p \<in> V. region B0 C0 p \<subseteq> V" and
    i3: "\<forall>p. board s p = (if p \<in> V \<and> 4 \<le> card (region B0 C0 p) then 0 else B0 p)" and
    i4: "\<forall>p. board_color s p = (if p \<in> V \<and> 4 \<le> card (region B0 C0 p) then 0 else C0 p)" and
    i5: "\<forall>p \<in> dn. in_bounds p \<and> B0 p \<noteq> 0 \<longrightarrow> p \<in> V" and
    i6: "score s = sc0 + (\<Sum>R \<in> big_regions B0 C0 V. c_trunc (of_int (int (card R) * 100) * m))" and
    i7: "tot = (\<Sum>R \<in> big_regions B0 C0 V. int (card R))" and
    i8: "grp = int (card (big_regions B0 C0 V))"
    unfolding st scan_inv_def V_def by simp_all
  show ?thesis
  proof (cases "board s (y, x) \<noteq> 0 \<and> visited s (y, x) = 0")
    case False
    then have e: "clear_cell m p st = (s, tot, grp)" unfolding p st by (rule clear_cell_skip)
    have "in_bounds p \<and> B0 p \<noteq> 0 \<longrightarrow> p \<in> V"
      using False i3 [rule_format, of p] unfolding p V_def marked_def by auto
    with i5 have "\<forall>q \<in> insert p dn. in_bounds q \<and> B0 q \<noteq> 0 \<longrightarrow> q \<in> V" by blast
    with i1 i2 i3 i4 i6 i7 i8 show ?thesis
      unfolding e scan_inv_def V_def by simp
  next
    case True
    then have occ: "board s (y, x) \<noteq> 0" and unv: "visited s (y, x) = 0" by simp_all
    obtain vis coords where d:
      "dfs (board s) (board_color s) y x (board_color s (y, x)) (visited s, []) = (vis, coords)"
      by (cases "dfs (board s) (board_color s) y x (board_color s (y, x)) (visited s, [])") auto
    from dfs_region [OF i2 [unfolded V_def] i3 [unfolded V_def] i4 [unfolded V_def] pb [unfolded p] occ unv]
    have r: "marked vis = V \<union> R" "distinct coords" "set coords = R"
      unfolding d V_def R_def by simp_all
    have len: "int (length coords) = int (card R)"
      using distinct_card [OF r(2)] r(3) by simp
    from unv have pV: "(y, x) \<notin> V" by (simp add: V_def marked_def)
    from occ i3 [rule_format, of "(y, x)"] have B0p: "B0 (y, x) \<noteq> 0" by (auto split: if_splits)
    have pR: "(y, x) \<in> R" unfolding R_def by (rule region_refl)
    have Req: "region B0 C0 q = R" if "q \<in> R" for q
      using that unfolding R_def by (rule region_eq)
    have RV: "q \<notin> V" if "q \<in> R" for q
    proof
      assume "q \<in> V"
      with i2 have "region B0 C0 q \<subseteq> V" by blast
      with Req [OF that] pR pV show False by blast
    qed
    have j1: "V \<union> R \<subseteq> {p. in_bounds p \<and> B0 p \<noteq> 0}"
      using i1 region_subset [of B0 C0 "(y, x)"] pb B0p unfolding R_def p by blast
    have j2: "\<forall>q \<in> V \<union> R. region B0 C0 q \<subseteq> V \<union> R"
      using i2 Req by blast
    have j5: "\<forall>q \<in> insert p dn. in_bounds q \<and> B0 q \<noteq> 0 \<longrightarrow> q \<in> V \<union> R"
      using i5 pR unfolding p by blast
    have fin: "finite (big_regions B0 C0 V)"
      using finite_big_regions [OF finite_marked [OF i1 [unfolded V_def]]] unfolding V_def .
    have notin: "R \<notin> big_regions B0 C0 V"
      unfolding R_def using i2 pV by (rule region_not_big)
    show ?thesis
    proof (cases "4 \<le> int (length coords)")
      case True
      then have big: "4 \<le> card R" using len by simp
      have e: "clear_cell m p st =
         (s\<lparr>visited := vis, board := zero_cells coords (board s),
            board_color := zero_cells coords (board_color s),
            score := score s + c_trunc (of_int (int (length coords) * 100) * m)\<rparr>,
          tot + int (length coords), grp + 1)"
        unfolding p st by (rule clear_cell_big [OF occ unv d True])
      have br: "big_regions B0 C0 (V \<union> R) = insert R (big_regions B0 C0 V)"
        unfolding R_def using big [unfolded R_def] by (rule big_regions_add_big)
      have j3: "\<forall>q. zero_cells coords (board s) q =
           (if q \<in> V \<union> R \<and> 4 \<le> card (region B0 C0 q) then 0 else B0 q)"
        using i3 Req RV big by (auto simp: zero_cells_apply r(3))
      have j4: "\<forall>q. zero_cells coords (board_color s) q =
           (if q \<in> V \<union> R \<and> 4 \<le> card (region B0 C0 q) then 0 else C0 q)"
        using i4 Req RV big by (auto simp: zero_cells_apply r(3))
      have j6: "score s + c_trunc (of_int (int (length coords) * 100) * m) =
           sc0 + (\<Sum>R \<in> big_regions B0 C0 (V \<union> R). c_trunc (of_int (int (card R) * 100) * m))"
        unfolding br using fin notin by (simp add: i6 len)
      have j7: "tot + int (length coords) = (\<Sum>R \<in> big_regions B0 C0 (V \<union> R). int (card R))"
        unfolding br using fin notin by (simp add: i7 len)
      have j8: "grp + 1 = int (card (big_regions B0 C0 (V \<union> R)))"
        unfolding br using fin notin by (simp add: i8)
      from j1 j2 j3 j4 j5 j6 j7 j8 show ?thesis
        unfolding e scan_inv_def by (simp add: r(1))
    next
      case False
      then have small: "\<not> 4 \<le> card R" using len by simp
      have e: "clear_cell m p st = (s\<lparr>visited := vis\<rparr>, tot, grp)"
        unfolding p st by (rule clear_cell_small [OF occ unv d False])
      have br: "big_regions B0 C0 (V \<union> R) = big_regions B0 C0 V"
        unfolding R_def using small [unfolded R_def] by (rule big_regions_add_small)
      have j3: "\<forall>q. board s q = (if q \<in> V \<union> R \<and> 4 \<le> card (region B0 C0 q) then 0 else B0 q)"
        using i3 Req RV small by auto
      have j4: "\<forall>q. board_color s q = (if q \<in> V \<union> R \<and> 4 \<le> card (region B0 C0 q) then 0 else C0 q)"
        using i4 Req RV small by auto
      from j1 j2 j3 j4 j5 i6 i7 i8 show ?thesis
        unfolding e scan_inv_def by (simp add: r(1) br)
    qed
  qed
qed


lemma scan_inv_fold:
  assumes "scan_inv B0 C0 sc0 m dn st" "\<forall>p \<in> set ps. in_bounds p"
  shows "scan_inv B0 C0 sc0 m (dn \<union> set ps) (fold (clear_cell m) ps st)"
  using assms
proof (induction ps arbitrary: dn st)
  case Nil
  then show ?case by simp
next
  case (Cons p ps)
  from Cons.prems have "scan_inv B0 C0 sc0 m (insert p dn) (clear_cell m p st)"
    by (intro clear_cell_inv) simp_all
  from Cons.IH [OF this] Cons.prems(2) show ?case by simp
qed

lemma set_cells: "set cells = {p. in_bounds p}"
  by (auto simp: cells_def in_bounds_def)

lemma scan_inv_init:
  "scan_inv (board s) (board_color s) (score s) m {} (s\<lparr>visited := (\<lambda>_. 0)\<rparr>, 0, 0)"
  by (simp add: scan_inv_def marked_def big_regions_def)

lemma clearGroups_scan:
  obtains s1 tot grp where
    "fold (clear_cell m) cells (s\<lparr>visited := (\<lambda>_. 0)\<rparr>, 0, 0) = (s1, tot, grp)"
    "\<forall>p. board s1 p = (if in_bounds p \<and> board s p \<noteq> 0 \<and> 4 \<le> card (region (board s) (board_color s) p)
                        then 0 else board s p)"
    "\<forall>p. board_color s1 p = (if in_bounds p \<and> board s p \<noteq> 0 \<and> 4 \<le> card (region (board s) (board_color s) p)
                        then 0 else board_color s p)"
    "score s1 = score s + (\<Sum>R \<in> clearable s. c_trunc (of_int (int (card R) * 100) * m))"
    "tot = (\<Sum>R \<in> clearable s. int (card R))"
    "grp = int (card (clearable s))"
proof -
  obtain s1 tot grp where f: "fold (clear_cell m) cells (s\<lparr>visited := (\<lambda>_. 0)\<rparr>, 0, 0) = (s1, tot, grp)"
    by (cases "fold (clear_cell m) cells (s\<lparr>visited := (\<lambda>_. 0)\<rparr>, 0, 0)") auto
  from scan_inv_fold [OF scan_inv_init, of cells s m] 
  have inv: "scan_inv (board s) (board_color s) (score s) m {p. in_bounds p} (s1, tot, grp)"
    unfolding f by (simp add: set_cells)
  define V where "V = marked (visited s1)"
  from inv have
    i1: "V \<subseteq> {p. in_bounds p \<and> board s p \<noteq> 0}" and
    i3: "\<forall>p. board s1 p = (if p \<in> V \<and> 4 \<le> card (region (board s) (board_color s) p) then 0 else board s p)" and
    i4: "\<forall>p. board_color s1 p = (if p \<in> V \<and> 4 \<le> card (region (board s) (board_color s) p) then 0 else board_color s p)" and
    i5: "\<forall>p \<in> {p. in_bounds p}. in_bounds p \<and> board s p \<noteq> 0 \<longrightarrow> p \<in> V" and
    i6: "score s1 = score s + (\<Sum>R \<in> big_regions (board s) (board_color s) V. c_trunc (of_int (int (card R) * 100) * m))" and
    i7: "tot = (\<Sum>R \<in> big_regions (board s) (board_color s) V. int (card R))" and
    i8: "grp = int (card (big_regions (board s) (board_color s) V))"
    unfolding scan_inv_def V_def by simp_all
  from i1 i5 have V: "V = {p. in_bounds p \<and> board s p \<noteq> 0}" by blast
  have big: "big_regions (board s) (board_color s) {p. in_bounds p \<and> board s p \<noteq> 0} = clearable s"
    unfolding big_regions_def clearable_def by auto
  show thesis
    by (rule that [OF f]) (use i3 i4 i6 i7 i8 in \<open>simp_all add: V big\<close>)
qed


subsection \<open>What \<^verbatim>\<open>clearGroups\<close> removes\<close>

lemma clear_cell_frame:
  "clears (fst (clear_cell m p st)) = clears (fst st) \<and> level (fst (clear_cell m p st)) = level (fst st)"
  by (cases st; cases p) (simp add: clear_cell_def Let_def split: prod.splits)

lemma fold_clear_cell_frame:
  "clears (fst (fold (clear_cell m) ps st)) = clears (fst st)
   \<and> level (fst (fold (clear_cell m) ps st)) = level (fst st)"
  by (induction ps arbitrary: st) (simp_all add: clear_cell_frame)

lemma clearGroups_result:
  obtains s1 where
    "\<forall>p. board s1 p = (if in_bounds p \<and> board s p \<noteq> 0 \<and> 4 \<le> card (region (board s) (board_color s) p)
                        then 0 else board s p)"
    "\<forall>p. board_color s1 p = (if in_bounds p \<and> board s p \<noteq> 0 \<and> 4 \<le> card (region (board s) (board_color s) p)
                        then 0 else board_color s p)"
    "score s1 = score s + (\<Sum>R \<in> clearable s. c_trunc (of_int (int (card R) * 100) * m))"
    "clears s1 = clears s" "level s1 = level s"
    "clearGroups m s =
       ((\<Sum>R \<in> clearable s. int (card R)),
        (if 0 < int (card (clearable s)) then
           (if level s \<le> (clears s + int (card (clearable s))) sdiv 5
            then s1\<lparr>clears := clears s + int (card (clearable s)), level := level s + 1\<rparr>
            else s1\<lparr>clears := clears s + int (card (clearable s))\<rparr>)
         else s1))"
proof -
  obtain s1 tot grp where f: "fold (clear_cell m) cells (s\<lparr>visited := (\<lambda>_. 0)\<rparr>, 0, 0) = (s1, tot, grp)"
    and r: "\<forall>p. board s1 p = (if in_bounds p \<and> board s p \<noteq> 0 \<and> 4 \<le> card (region (board s) (board_color s) p)
                        then 0 else board s p)"
    "\<forall>p. board_color s1 p = (if in_bounds p \<and> board s p \<noteq> 0 \<and> 4 \<le> card (region (board s) (board_color s) p)
                        then 0 else board_color s p)"
    "score s1 = score s + (\<Sum>R \<in> clearable s. c_trunc (of_int (int (card R) * 100) * m))"
    "tot = (\<Sum>R \<in> clearable s. int (card R))"
    "grp = int (card (clearable s))"
    by (rule clearGroups_scan)
  from fold_clear_cell_frame [of m cells "(s\<lparr>visited := (\<lambda>_. 0)\<rparr>, 0, 0)"]
  have fr: "clears s1 = clears s" "level s1 = level s" unfolding f by simp_all
  show thesis
    by (rule that [OF r(1,2,3) fr]) (simp add: clearGroups_def f Let_def r(4,5) fr)
qed


lemma clearGroups_board:
  "board (snd (clearGroups m s)) p =
     (if in_bounds p \<and> board s p \<noteq> 0 \<and> 4 \<le> card (region (board s) (board_color s) p)
      then 0 else board s p)
   \<and> board_color (snd (clearGroups m s)) p =
     (if in_bounds p \<and> board s p \<noteq> 0 \<and> 4 \<le> card (region (board s) (board_color s) p)
      then 0 else board_color s p)"
proof -
  obtain s1 where r:
    "\<forall>p. board s1 p = (if in_bounds p \<and> board s p \<noteq> 0 \<and> 4 \<le> card (region (board s) (board_color s) p)
                        then 0 else board s p)"
    "\<forall>p. board_color s1 p = (if in_bounds p \<and> board s p \<noteq> 0 \<and> 4 \<le> card (region (board s) (board_color s) p)
                        then 0 else board_color s p)"
    and "score s1 = score s + (\<Sum>R \<in> clearable s. c_trunc (of_int (int (card R) * 100) * m))"
    and "clears s1 = clears s" "level s1 = level s"
    and e: "clearGroups m s =
       ((\<Sum>R \<in> clearable s. int (card R)),
        (if 0 < int (card (clearable s)) then
           (if level s \<le> (clears s + int (card (clearable s))) sdiv 5
            then s1\<lparr>clears := clears s + int (card (clearable s)), level := level s + 1\<rparr>
            else s1\<lparr>clears := clears s + int (card (clearable s))\<rparr>)
         else s1))"
    by (rule clearGroups_result)
  have "board (snd (clearGroups m s)) = board s1" "board_color (snd (clearGroups m s)) = board_color s1"
    unfolding e by simp_all
  with r(1) [rule_format, of p] r(2) [rule_format, of p] show ?thesis by simp
qed

text \<open>
  Claim C3. Let \<open>p\<close> be an occupied cell of the board and \<open>q\<close> any cell of its region
  (its maximal connected same-coloured group). If the region has exactly three cells,
  \<open>q\<close> is as occupied and coloured after \<^verbatim>\<open>clearGroups\<close> as before; if it has exactly four,
  \<open>q\<close> is unoccupied with colour 0 after the call: the whole group goes, never a part.
\<close>

theorem clearGroups_threshold:
  assumes "in_bounds p" "board s p \<noteq> 0" "q \<in> region (board s) (board_color s) p"
  shows "(card (region (board s) (board_color s) p) = 3 \<longrightarrow>
            board (snd (clearGroups m s)) q = board s q \<and> board s q \<noteq> 0
            \<and> board_color (snd (clearGroups m s)) q = board_color s q)
       \<and> (card (region (board s) (board_color s) p) = 4 \<longrightarrow>
            board (snd (clearGroups m s)) q = 0 \<and> board_color (snd (clearGroups m s)) q = 0)"
proof -
  from assms(3) have eq: "region (board s) (board_color s) q = region (board s) (board_color s) p"
    by (rule region_eq)
  from assms region_subset [of "board s" "board_color s" p]
  have q: "in_bounds q" "board s q \<noteq> 0" by auto
  from clearGroups_board [of m s q] eq q show ?thesis by simp
qed

lemma region_eqI:
  assumes "p \<in> S"
    and closed: "\<And>a b. a \<in> S \<Longrightarrow> (a, b) \<in> link brd col \<Longrightarrow> b \<in> S"
    and conn: "\<And>q. q \<in> S \<Longrightarrow> (p, q) \<in> (link brd col)\<^sup>*"
  shows "region brd col p = S"
proof (intro equalityI subsetI)
  fix q assume "q \<in> region brd col p"
  then have "(p, q) \<in> (link brd col)\<^sup>*" by (simp add: region_def)
  then show "q \<in> S" by (induction rule: rtrancl_induct) (use assms(1) closed in blast)+
next
  fix q assume "q \<in> S"
  then show "q \<in> region brd col p" by (simp add: region_def conn)
qed

lemma L_game_links:
  "((19,0), (19,1)) \<in> link (board L_game) (board_color L_game)"
  "((19,1), (19,2)) \<in> link (board L_game) (board_color L_game)"
  "((19,4), (19,5)) \<in> link (board L_game) (board_color L_game)"
  "((19,5), (19,6)) \<in> link (board L_game) (board_color L_game)"
  "((19,4), (18,4)) \<in> link (board L_game) (board_color L_game)"
  by (simp_all add: link_def L_game_def in_bounds_def adjacent_def)

lemma L_game_link_cases:
  "(a, b) \<in> link (board L_game) (board_color L_game) \<Longrightarrow>
     (a \<in> {(19,0), (19,1), (19,2)} \<and> b \<in> {(19,0), (19,1), (19,2)})
     \<or> (a \<in> {(19,4), (19,5), (19,6), (18,4)} \<and> b \<in> {(19,4), (19,5), (19,6), (18,4)})"
  by (cases a; cases b) (auto simp: link_def L_game_def adjacent_def split: if_splits)

lemma L_game_region3:
  "region (board L_game) (board_color L_game) (19,0) = {(19,0), (19,1), (19,2)}"
proof (rule region_eqI)
  show "(19,0) \<in> {(19,0), (19,1), (19,2::int)}" by simp
next
  fix a b :: "int \<times> int"
  assume "a \<in> {(19,0), (19,1), (19,2)}" "(a, b) \<in> link (board L_game) (board_color L_game)"
  with L_game_link_cases [of a b] show "b \<in> {(19,0), (19,1), (19,2)}" by auto
next
  fix q :: "int \<times> int" assume "q \<in> {(19,0), (19,1), (19,2)}"
  then consider "q = (19,0)" | "q = (19,1)" | "q = (19,2)" by auto
  then show "((19,0), q) \<in> (link (board L_game) (board_color L_game))\<^sup>*"
  proof cases
    case 1 then show ?thesis by simp
  next
    case 2 with L_game_links(1) show ?thesis by blast
  next
    case 3 with L_game_links(1,2) show ?thesis by (blast intro: rtrancl_trans)
  qed
qed

lemma L_game_region4:
  "region (board L_game) (board_color L_game) (19,4) = {(19,4), (19,5), (19,6), (18,4)}"
proof (rule region_eqI)
  show "(19,4) \<in> {(19,4), (19,5), (19,6), (18,4::int)}" by simp
next
  fix a b :: "int \<times> int"
  assume "a \<in> {(19,4), (19,5), (19,6), (18,4)}" "(a, b) \<in> link (board L_game) (board_color L_game)"
  with L_game_link_cases [of a b] show "b \<in> {(19,4), (19,5), (19,6), (18,4)}" by auto
next
  fix q :: "int \<times> int" assume "q \<in> {(19,4), (19,5), (19,6), (18,4)}"
  then consider "q = (19,4)" | "q = (19,5)" | "q = (19,6)" | "q = (18,4)" by auto
  then show "((19,4), q) \<in> (link (board L_game) (board_color L_game))\<^sup>*"
  proof cases
    case 1 then show ?thesis by simp
  next
    case 2 with L_game_links(3) show ?thesis by blast
  next
    case 3 with L_game_links(3,4) show ?thesis by (blast intro: rtrancl_trans)
  next
    case 4 with L_game_links(5) show ?thesis by blast
  qed
qed

theorem clearGroups_threshold_witness:
  "card (region (board L_game) (board_color L_game) (19,0)) = 3
   \<and> board (snd (clearGroups 1 L_game)) (19,2) = 1
   \<and> board_color (snd (clearGroups 1 L_game)) (19,2) = 1
   \<and> card (region (board L_game) (board_color L_game) (19,4)) = 4
   \<and> board (snd (clearGroups 1 L_game)) (18,4) = 0
   \<and> board_color (snd (clearGroups 1 L_game)) (18,4) = 0"
proof -
  have c3: "card (region (board L_game) (board_color L_game) (19,0)) = 3"
    and c4: "card (region (board L_game) (board_color L_game) (19,4)) = 4"
    by (simp_all add: L_game_region3 L_game_region4)
  have a: "in_bounds (19,0)" "board L_game (19,0) \<noteq> 0"
    "(19,2) \<in> region (board L_game) (board_color L_game) (19,0)"
    by (simp_all add: in_bounds_def L_game_region3) (simp add: L_game_def)
  have b: "in_bounds (19,4)" "board L_game (19,4) \<noteq> 0"
    "(18,4) \<in> region (board L_game) (board_color L_game) (19,4)"
    by (simp_all add: in_bounds_def L_game_region4) (simp add: L_game_def)
  from clearGroups_threshold [OF a, of 1] c3
  have "board (snd (clearGroups 1 L_game)) (19,2) = 1"
    "board_color (snd (clearGroups 1 L_game)) (19,2) = 1" by (simp_all add: L_game_def)
  moreover from clearGroups_threshold [OF b, of 1] c4
  have "board (snd (clearGroups 1 L_game)) (18,4) = 0"
    "board_color (snd (clearGroups 1 L_game)) (18,4) = 0" by simp_all
  ultimately show ?thesis using c3 c4 by simp
qed


subsection \<open>Score and level\<close>

lemma c_trunc_half:
  "c_trunc (of_int (n * 100) * (1 + (1 / 2) * of_int d)) = \<lfloor>(of_int n :: rat) * 100 * (1 + (1 / 2) * of_int d)\<rfloor>"
proof -
  have "(of_int (n * 100) :: rat) * (1 + (1 / 2) * of_int d) = of_int (n * 100 + n * 50 * d)"
    by (simp add: algebra_simps)
  moreover have "(of_int n :: rat) * 100 * (1 + (1 / 2) * of_int d) = of_int (n * 100 + n * 50 * d)"
    by (simp add: algebra_simps)
  ultimately show ?thesis by (simp only: c_trunc_def floor_of_int ceiling_of_int if_cancel)
qed

lemma clearGroups_score_sum:
  "score (snd (clearGroups m s)) = score s + (\<Sum>R \<in> clearable s. c_trunc (of_int (int (card R) * 100) * m))
   \<and> fst (clearGroups m s) = (\<Sum>R \<in> clearable s. int (card R))"
proof -
  obtain s1 where
    r: "score s1 = score s + (\<Sum>R \<in> clearable s. c_trunc (of_int (int (card R) * 100) * m))"
    and e: "clearGroups m s =
       ((\<Sum>R \<in> clearable s. int (card R)),
        (if 0 < int (card (clearable s)) then
           (if level s \<le> (clears s + int (card (clearable s))) sdiv 5
            then s1\<lparr>clears := clears s + int (card (clearable s)), level := level s + 1\<rparr>
            else s1\<lparr>clears := clears s + int (card (clearable s))\<rparr>)
         else s1))"
    by (rule clearGroups_result [of s m]) blast
  have "score (snd (clearGroups m s)) = score s1" unfolding e by simp
  with r show ?thesis unfolding e by simp
qed

text \<open>
  Claim C1. Called with the multiplier \<open>1 + 0.5 * d\<close> that \<open>cascade_inner\<close> passes at chain
  depth \<open>d\<close>, \<^verbatim>\<open>clearGroups\<close> adds to the score, for every group of four cells or more of
  the board (these are the groups it removes), the amount \<open>floor (n * 100 * (1 + 0.5 * d))\<close>
  with \<open>n\<close> the group's cell count, and nothing else; it returns the number of cells of
  these groups. When \<open>G\<close> is the only such group the score grows by exactly its amount.
\<close>

theorem clearGroups_score:
  "score (snd (clearGroups (1 + (1 / 2) * of_int d) s)) =
     score s + (\<Sum>R \<in> clearable s. \<lfloor>(of_int (int (card R)) :: rat) * 100 * (1 + (1 / 2) * of_int d)\<rfloor>)
   \<and> fst (clearGroups (1 + (1 / 2) * of_int d) s) = (\<Sum>R \<in> clearable s. int (card R))
   \<and> (clearable s = {G} \<longrightarrow>
        score (snd (clearGroups (1 + (1 / 2) * of_int d) s)) =
          score s + \<lfloor>(of_int (int (card G)) :: rat) * 100 * (1 + (1 / 2) * of_int d)\<rfloor>)"
proof -
  have a: "score (snd (clearGroups (1 + (1 / 2) * of_int d) s)) =
     score s + (\<Sum>R \<in> clearable s. \<lfloor>(of_int (int (card R)) :: rat) * 100 * (1 + (1 / 2) * of_int d)\<rfloor>)"
    using clearGroups_score_sum [of "1 + (1 / 2) * of_int d" s] by (simp only: c_trunc_half)
  moreover have "fst (clearGroups (1 + (1 / 2) * of_int d) s) = (\<Sum>R \<in> clearable s. int (card R))"
    using clearGroups_score_sum [of "1 + (1 / 2) * of_int d" s] by simp
  moreover have "score (snd (clearGroups (1 + (1 / 2) * of_int d) s)) =
          score s + \<lfloor>(of_int (int (card G)) :: rat) * 100 * (1 + (1 / 2) * of_int d)\<rfloor>"
    if "clearable s = {G}"
    unfolding a that by simp
  ultimately show ?thesis by blast
qed

text \<open>The L-shaped group is the only group of four cells or more of the example board.\<close>

lemma L_game_clearable: "clearable L_game = {{(19,4), (19,5), (19,6), (18,4)}}"
proof -
  have occ: "in_bounds p \<and> board L_game p \<noteq> 0 \<longleftrightarrow>
      p \<in> {(19,0), (19,1), (19,2)} \<or> p \<in> {(19,4), (19,5), (19,6), (18,4)}" for p
    by (cases p) (auto simp: L_game_def in_bounds_def split: if_splits)
  have r3: "region (board L_game) (board_color L_game) p = {(19,0), (19,1), (19,2)}"
    if "p \<in> {(19,0), (19,1), (19,2)}" for p
    using region_eq [of p "board L_game" "board_color L_game" "(19,0)"] that
    unfolding L_game_region3 by blast
  have r4: "region (board L_game) (board_color L_game) p = {(19,4), (19,5), (19,6), (18,4)}"
    if "p \<in> {(19,4), (19,5), (19,6), (18,4)}" for p
    using region_eq [of p "board L_game" "board_color L_game" "(19,4)"] that
    unfolding L_game_region4 by blast
  show ?thesis
  proof (intro equalityI subsetI)
    fix R assume "R \<in> clearable L_game"
    then obtain p where p: "in_bounds p \<and> board L_game p \<noteq> 0"
      "R = region (board L_game) (board_color L_game) p" "4 \<le> card R"
      by (auto simp: clearable_def)
    from p(1) occ [of p] consider "p \<in> {(19,0), (19,1), (19,2)}" | "p \<in> {(19,4), (19,5), (19,6), (18,4)}"
      by blast
    then show "R \<in> {{(19,4), (19,5), (19,6), (18,4)}}"
    proof cases
      case 1
      from p(2,3) show ?thesis unfolding r3 [OF 1] by simp
    next
      case 2
      from p(2) show ?thesis unfolding r4 [OF 2] by simp
    qed
  next
    fix R :: "(int \<times> int) set" assume "R \<in> {{(19,4), (19,5), (19,6), (18,4)}}"
    then have R: "R = region (board L_game) (board_color L_game) (19,4)"
      by (simp add: L_game_region4)
    moreover have "in_bounds (19,4)" "board L_game (19,4) \<noteq> 0"
      by (simp_all add: in_bounds_def L_game_def)
    moreover have "4 \<le> card (region (board L_game) (board_color L_game) (19,4))"
      by (simp add: L_game_region4)
    ultimately show "R \<in> clearable L_game" unfolding clearable_def by blast
  qed
qed

theorem clearGroups_score_witness:
  "clearable L_game = {{(19,4), (19,5), (19,6), (18,4)}}
   \<and> score (snd (clearGroups (1 + (1 / 2) * of_int 1) L_game)) = score L_game + 600
   \<and> fst (clearGroups (1 + (1 / 2) * of_int 1) L_game) = 4"
  using clearGroups_score [of 1 L_game "{(19,4), (19,5), (19,6), (18,4)}"] L_game_clearable
  by simp

text \<open>
  Claim C6. A call of \<^verbatim>\<open>clearGroups\<close> adds the number of groups it cleared to \<^verbatim>\<open>clears\<close>.
  It raises \<^verbatim>\<open>level\<close> by exactly 1 when it cleared a group and the new count has reached
  \<open>5 * level\<close>, and leaves it as it was otherwise; so never before the count reaches
  \<open>5 * level\<close>, and by 1 only even when the new count is past \<open>5 * (level + 1)\<close>.
\<close>

lemma sdiv_5_nonneg: "0 \<le> a \<Longrightarrow> (l \<le> a sdiv 5) = (5 * l \<le> (a :: int))"
  by (simp add: signed_divide_int_def sgn_if) presburger

theorem clearGroups_level:
  assumes "0 \<le> clears s"
  shows "clears (snd (clearGroups m s)) = clears s + int (card (clearable s))
       \<and> level (snd (clearGroups m s)) =
           (if clears s < clears (snd (clearGroups m s)) \<and> 5 * level s \<le> clears (snd (clearGroups m s))
            then level s + 1 else level s)"
proof -
  obtain s1 where fr: "clears s1 = clears s" "level s1 = level s"
    and e: "clearGroups m s =
       ((\<Sum>R \<in> clearable s. int (card R)),
        (if 0 < int (card (clearable s)) then
           (if level s \<le> (clears s + int (card (clearable s))) sdiv 5
            then s1\<lparr>clears := clears s + int (card (clearable s)), level := level s + 1\<rparr>
            else s1\<lparr>clears := clears s + int (card (clearable s))\<rparr>)
         else s1))"
    by (rule clearGroups_result [of s m]) blast
  from assms have "0 \<le> clears s + int (card (clearable s))" by simp
  note d = sdiv_5_nonneg [OF this]
  show ?thesis unfolding e by (simp add: fr d)
qed

text \<open>
  On the board with six groups the count goes from 4 to 10, past both 5 and 10, and the
  level from 1 to 2.
\<close>

theorem clearGroups_level_witness:
  "0 \<le> clears six_game
   \<and> clears six_game = 4 \<and> level six_game = 1
   \<and> clears (snd (clearGroups 1 six_game)) = 10
   \<and> level (snd (clearGroups 1 six_game)) = 2"
proof -
  have c: "clears (snd (clearGroups 1 six_game)) = 10" by code_simp
  have s: "clears six_game = 4" "level six_game = 1" by (simp_all add: six_game_def empty_game_def)
  from clearGroups_level [of six_game 1] c s show ?thesis by simp
qed


subsection \<open>The colour invariant of the board\<close>

lemma place_cell_inv:
  assumes "piece_colored K b" "(y, x) \<in> set local_cells"
    and "\<forall>p. in_bounds p \<longrightarrow> (snd bc p = 0 \<longleftrightarrow> fst bc p = 0)"
  shows "\<forall>p. in_bounds p \<longrightarrow>
           (snd (place_cell b bx byy (y, x) bc) p = 0 \<longleftrightarrow> fst (place_cell b bx byy (y, x) bc) p = 0)"
proof -
  from assms(1,2) have "cell (shape b) y x \<noteq> 0 \<Longrightarrow> cell (color b) y x \<noteq> 0"
    unfolding piece_colored_def set_local_cells by fastforce
  with assms(3) show ?thesis
    by (cases bc) (auto simp: place_cell_def Let_def)
qed

lemma fold_place_cell_inv:
  assumes "piece_colored K b" "set ps \<subseteq> set local_cells"
    and "\<forall>p. in_bounds p \<longrightarrow> (snd bc p = 0 \<longleftrightarrow> fst bc p = 0)"
  shows "\<forall>p. in_bounds p \<longrightarrow>
           (snd (fold (place_cell b bx byy) ps bc) p = 0 \<longleftrightarrow> fst (fold (place_cell b bx byy) ps bc) p = 0)"
  using assms(2,3)
proof (induction ps arbitrary: bc)
  case Nil
  then show ?case by simp
next
  case (Cons a ps)
  obtain y x where a: "a = (y, x)" by (cases a) auto
  from Cons.prems(1) have "(y, x) \<in> set local_cells" "set ps \<subseteq> set local_cells" by (auto simp: a)
  from Cons.IH [OF this(2) place_cell_inv [OF assms(1) this(1) Cons.prems(2)]]
  show ?case by (simp add: a)
qed

lemma placeBlock_inv:
  assumes "board_inv s" "piece_colored K b"
  shows "board_inv (placeBlock b bx byy s)"
proof -
  from assms(1) have "\<forall>p. in_bounds p \<longrightarrow> (snd (board s, board_color s) p = 0 \<longleftrightarrow> fst (board s, board_color s) p = 0)"
    by (simp add: board_inv_def)
  from fold_place_cell_inv [OF assms(2) subset_refl this, of bx byy]
  have r: "\<forall>p. in_bounds p \<longrightarrow>
           (snd (fold (place_cell b bx byy) local_cells (board s, board_color s)) p = 0
            \<longleftrightarrow> fst (fold (place_cell b bx byy) local_cells (board s, board_color s)) p = 0)" .
  obtain brd col where f: "fold (place_cell b bx byy) local_cells (board s, board_color s) = (brd, col)"
    by (cases "fold (place_cell b bx byy) local_cells (board s, board_color s)") auto
  from r have "\<forall>p. in_bounds p \<longrightarrow> (col p = 0 \<longleftrightarrow> brd p = 0)" unfolding f by simp
  then show ?thesis unfolding placeBlock_def board_inv_def f by simp
qed

lemma clearGroups_inv:
  assumes "board_inv s"
  shows "board_inv (snd (clearGroups m s))"
  unfolding board_inv_def
proof (intro allI impI)
  fix p assume "in_bounds p"
  with assms have "board_color s p = 0 \<longleftrightarrow> board s p = 0" unfolding board_inv_def by blast
  with clearGroups_board [of m s p]
  show "board_color (snd (clearGroups m s)) p = 0 \<longleftrightarrow> board (snd (clearGroups m s)) p = 0"
    by (simp split: if_splits)
qed

lemma gravity_cell_inv:
  assumes "\<forall>p. in_bounds p \<longrightarrow> (col p = 0 \<longleftrightarrow> brd p = 0)" "in_bounds p"
    and "\<forall>q. fst (snd acc) q = 0 \<longleftrightarrow> snd (snd acc) q = 0"
  shows "\<forall>q. fst (snd (gravity_cell brd col p acc)) q = 0 \<longleftrightarrow> snd (snd (gravity_cell brd col p acc)) q = 0"
  using assms by (cases acc; cases p) (auto simp: gravity_cell_def Let_def)

lemma fold_gravity_cell_inv:
  assumes "\<forall>p. in_bounds p \<longrightarrow> (col p = 0 \<longleftrightarrow> brd p = 0)" "\<forall>p \<in> set ps. in_bounds p"
    and "\<forall>q. fst (snd acc) q = 0 \<longleftrightarrow> snd (snd acc) q = 0"
  shows "\<forall>q. fst (snd (fold (gravity_cell brd col) ps acc)) q = 0
           \<longleftrightarrow> snd (snd (fold (gravity_cell brd col) ps acc)) q = 0"
  using assms(2,3)
proof (induction ps arbitrary: acc)
  case Nil
  then show ?case by simp
next
  case (Cons a ps)
  from Cons.prems(1) have "in_bounds a" "\<forall>p \<in> set ps. in_bounds p" by simp_all
  from Cons.IH [OF this(2) gravity_cell_inv [OF assms(1) this(1) Cons.prems(2)]]
  show ?case by simp
qed

lemma set_cells_bottom_up: "set cells_bottom_up = {p. in_bounds p}"
  by (auto simp: cells_bottom_up_def in_bounds_def)

lemma gravityFailSafe_inv:
  assumes "board_inv s"
  shows "board_inv (snd (gravityFailSafe s))"
proof -
  from assms have a: "\<forall>p. in_bounds p \<longrightarrow> (board_color s p = 0 \<longleftrightarrow> board s p = 0)"
    by (simp add: board_inv_def)
  have "\<forall>q. fst (snd (fold (gravity_cell (board s) (board_color s)) cells_bottom_up (False, (\<lambda>_. 0), (\<lambda>_. 0)))) q = 0
           \<longleftrightarrow> snd (snd (fold (gravity_cell (board s) (board_color s)) cells_bottom_up (False, (\<lambda>_. 0), (\<lambda>_. 0)))) q = 0"
    by (rule fold_gravity_cell_inv [OF a]) (simp_all add: set_cells_bottom_up)
  moreover obtain moved tmp tmpc where f:
    "fold (gravity_cell (board s) (board_color s)) cells_bottom_up (False, (\<lambda>_. 0), (\<lambda>_. 0)) = (moved, tmp, tmpc)"
    by (cases "fold (gravity_cell (board s) (board_color s)) cells_bottom_up (False, (\<lambda>_. 0), (\<lambda>_. 0))") auto
  ultimately have "\<forall>q. tmp q = 0 \<longleftrightarrow> tmpc q = 0" by simp
  then show ?thesis unfolding gravityFailSafe_def board_inv_def f by simp
qed

text \<open>
  Claim C9. \<^verbatim>\<open>placeBlock\<close> with a piece whose occupied cells carry a colour in \<open>[1, K]\<close>,
  \<open>K \<ge> 1\<close>, the pass of \<^verbatim>\<open>clearGroups\<close> and a step of \<^verbatim>\<open>gravityFailSafe\<close> each keep the
  invariant that a board cell has colour 0 exactly when it is unoccupied; so it holds in
  every state reached from the empty board.
\<close>

theorem board_color_invariant:
  "(board_inv s \<and> piece_colored K b \<longrightarrow> board_inv (placeBlock b bx byy s))
   \<and> (board_inv s \<longrightarrow> board_inv (snd (clearGroups m s)))
   \<and> (board_inv s \<longrightarrow> board_inv (snd (gravityFailSafe s)))
   \<and> (reachable K s \<longrightarrow> board_inv s)"
proof -
  have "board_inv s" if "reachable K s"
    using that
  proof (induction rule: reachable.induct)
    case (start s)
    then show ?case by (simp add: board_inv_def)
  next
    case (place s b bx byy)
    then show ?case by (intro placeBlock_inv)
  next
    case (clear s m)
    then show ?case by (intro clearGroups_inv)
  next
    case (fall s)
    then show ?case by (intro gravityFailSafe_inv)
  next
    case (keep s s')
    then show ?case by (simp add: board_inv_def)
  qed
  with placeBlock_inv [of s K b bx byy] clearGroups_inv [of s m] gravityFailSafe_inv [of s]
  show ?thesis by blast
qed


text \<open>\<^verbatim>\<open>makeBlock\<close> builds such a piece from any two values of \<^verbatim>\<open>rand()\<close>, which are not negative.\<close>

lemma piece_colored_makeBlock:
  assumes "1 \<le> K" "0 \<le> r1" "0 \<le> r2"
  shows "piece_colored K (makeBlock K r1 r2)"
proof -
  have "0 \<le> r smod K \<and> r smod K < K" if "0 \<le> r" for r
    using that assms(1) by (simp add: signed_modulo_int_def sgn_if)
  from this [OF assms(2)] this [OF assms(3)] assms(1) show ?thesis
    by (simp add: piece_colored_def makeBlock_def)
qed

theorem board_color_invariant_witness:
  "board_inv L_game \<and> piece_colored 4 (makeBlock 4 1 0)
   \<and> board_inv (placeBlock (makeBlock 4 1 0) 4 17 L_game)
   \<and> board_inv (snd (clearGroups 1 L_game))
   \<and> board_inv (snd (gravityFailSafe L_game))
   \<and> reachable 4 (snd (gravityFailSafe (placeBlock (makeBlock 4 1 0) 4 0 empty_game)))
   \<and> board_inv (snd (gravityFailSafe (placeBlock (makeBlock 4 1 0) 4 0 empty_game)))"
proof -
  have a: "board_inv L_game" by (simp add: board_inv_def L_game_def)
  have b: "piece_colored 4 (makeBlock 4 1 0)" by (rule piece_colored_makeBlock) simp_all
  have "reachable 4 empty_game" by (rule reachable.start) (simp_all add: empty_game_def)
  then have "reachable 4 (placeBlock (makeBlock 4 1 0) 4 0 empty_game)" using b by (rule reachable.place)
  then have c: "reachable 4 (snd (gravityFailSafe (placeBlock (makeBlock 4 1 0) 4 0 empty_game)))"
    by (rule reachable.fall)
  from board_color_invariant [of L_game 4 "makeBlock 4 1 0" 4 17 1] a b
    board_color_invariant [of "snd (gravityFailSafe (placeBlock (makeBlock 4 1 0) 4 0 empty_game))" 4] c
  show ?thesis by blast
qed


subsection \<open>Ghost projection\<close>

lemma ghost_drop_row:
  assumes "0 \<le> gx" "gx < WIDTH" "- 1 \<le> gy"
  shows "\<exists>r. ghost_drop brd gx gy = Some r \<and> ghost_row brd gx gy r \<and> (gy < HEIGHT \<longrightarrow> r < HEIGHT)"
  using assms
proof (induction brd gx gy rule: ghost_drop.induct)
  case (1 brd gx gy)
  show ?case
  proof (cases "gy + 1 < HEIGHT \<and> brd (gy + 1, gx) = 0")
    case False
    with "1.prems" have "ghost_drop brd gx gy = Some gy"
      by (subst ghost_drop.simps) auto
    moreover from False have "ghost_row brd gx gy gy" by (auto simp: ghost_row_def)
    ultimately show ?thesis by blast
  next
    case True
    with "1.prems" have e: "ghost_drop brd gx gy = ghost_drop brd gx (gy + 1)"
      by (subst ghost_drop.simps) auto
    from True "1.prems" have "\<exists>r. ghost_drop brd gx (gy + 1) = Some r \<and> ghost_row brd gx (gy + 1) r
        \<and> (gy + 1 < HEIGHT \<longrightarrow> r < HEIGHT)"
      by (intro "1.IH") auto
    with True obtain r where r: "ghost_drop brd gx (gy + 1) = Some r" "ghost_row brd gx (gy + 1) r"
      "r < HEIGHT" by blast
    have "brd (k, gx) = 0" if "gy < k" "k \<le> r" for k
    proof (cases "k = gy + 1")
      case True with \<open>gy + 1 < HEIGHT \<and> brd (gy + 1, gx) = 0\<close> show ?thesis by simp
    next
      case False with that r(2) show ?thesis by (simp add: ghost_row_def)
    qed
    with r(2) have "ghost_row brd gx gy r" by (simp add: ghost_row_def)
    with r(1,3) e show ?thesis by simp
  qed
qed

lemma ghost_row_less:
  assumes "ghost_row brd gx gy r" "ghost_row brd gx gy r'" "r' < HEIGHT"
  shows "\<not> r < r'"
proof
  assume "r < r'"
  with assms(1) have k: "gy < r + 1" "r + 1 \<le> r'" by (auto simp: ghost_row_def)
  with assms(2) have "brd (r + 1, gx) = 0" by (simp add: ghost_row_def)
  with assms(1) have "HEIGHT \<le> r + 1" by (simp add: ghost_row_def)
  with k(2) assms(3) show False by linarith
qed

lemma ghost_row_unique:
  assumes "ghost_row brd gx gy r" "ghost_row brd gx gy r'" "r < HEIGHT" "r' < HEIGHT"
  shows "r = r'"
  using ghost_row_less [OF assms(1,2,4)] ghost_row_less [OF assms(2,1,3)] by linarith

lemma ghost_drop_iff:
  assumes "0 \<le> gx" "gx < WIDTH" "- 1 \<le> gy" "r < HEIGHT"
  shows "ghost_drop brd gx gy = Some r \<longleftrightarrow> ghost_row brd gx gy r"
proof
  assume "ghost_drop brd gx gy = Some r"
  with ghost_drop_row [OF assms(1-3), of brd] show "ghost_row brd gx gy r" by auto
next
  assume g: "ghost_row brd gx gy r"
  with assms(4) have "gy < HEIGHT" by (simp add: ghost_row_def)
  with ghost_drop_row [OF assms(1-3), of brd]
  obtain r' where r': "ghost_drop brd gx gy = Some r'" "ghost_row brd gx gy r'" "r' < HEIGHT" by blast
  from ghost_row_unique [OF g r'(2) assms(4) r'(3)] r'(1) show "ghost_drop brd gx gy = Some r" by simp
qed

text \<open>
  Whenever the loop returns a row, without any assumption on where the cell starts, it is
  the resting row of the cell.
\<close>

lemma ghost_drop_Some:
  "ghost_drop brd gx gy = Some r \<Longrightarrow> ghost_row brd gx gy r \<and> (gy < HEIGHT \<longrightarrow> r < HEIGHT)"
proof (induction brd gx gy rule: ghost_drop.induct)
  case (1 brd gx gy)
  show ?case
  proof (cases "gy + 1 < HEIGHT")
    case False
    with "1.prems" have "r = gy" by (subst (asm) ghost_drop.simps) simp
    with False show ?thesis by (simp add: ghost_row_def)
  next
    case True
    with "1.prems" have inr: "\<not> (gy + 1 < 0 \<or> gx < 0 \<or> WIDTH \<le> gx)"
      by (subst (asm) ghost_drop.simps) (auto split: if_splits)
    with ghost_drop_row [of gx gy brd] "1.prems" show ?thesis by auto
  qed
qed

lemma ghost_drop_Some_iff:
  assumes "ghost_drop brd gx gy = Some r0" "r < HEIGHT"
  shows "ghost_row brd gx gy r \<longleftrightarrow> r = r0"
proof
  assume g: "ghost_row brd gx gy r"
  with assms(2) have "gy < HEIGHT" by (simp add: ghost_row_def)
  with ghost_drop_Some [OF assms(1)] have "ghost_row brd gx gy r0" "r0 < HEIGHT" by simp_all
  from ghost_row_unique [OF g this(1) assms(2) this(2)] show "r = r0" .
next
  assume "r = r0"
  with ghost_drop_Some [OF assms(1)] show "ghost_row brd gx gy r" by simp
qed

lemma drawGhost_loop_Cons:
  assumes "drawGhost_loop brd b x y ((xx, yy) # ps) = Some ds"
  obtains "cell (shape b) yy xx = 0" "drawGhost_loop brd b x y ps = Some ds"
  | r0 ds' where "cell (shape b) yy xx \<noteq> 0" "ghost_drop brd (x + xx) (y + yy) = Some r0"
      "drawGhost_loop brd b x y ps = Some ds'"
      "ds = (if 0 \<le> r0 \<and> r0 < HEIGHT \<and> 0 \<le> x + xx \<and> x + xx < WIDTH then (r0, x + xx) # ds' else ds')"
  using assms by (auto simp: Let_def split: if_splits option.splits)

lemma drawGhost_loop_cells:
  assumes "drawGhost_loop brd b x y ps = Some ds"
  shows "\<forall>p. p \<in> set ds \<longleftrightarrow>
              (\<exists>(xx, yy) \<in> set ps. \<exists>r. cell (shape b) yy xx \<noteq> 0 \<and> p = (r, x + xx)
                 \<and> 0 \<le> r \<and> r < HEIGHT \<and> 0 \<le> x + xx \<and> x + xx < WIDTH
                 \<and> ghost_row brd (x + xx) (y + yy) r)"
  using assms
proof (induction ps arbitrary: ds)
  case Nil
  then show ?case by simp
next
  case (Cons a ps)
  obtain xx yy where a: "a = (xx, yy)" by (cases a) auto
  from Cons.prems [unfolded a] show ?case
  proof (cases rule: drawGhost_loop_Cons)
    case 1
    with Cons.IH [OF 1(2)] show ?thesis by (simp add: a)
  next
    case (2 r0 ds')
    have u: "ghost_row brd (x + xx) (y + yy) r \<longleftrightarrow> r = r0" if "r < HEIGHT" for r
      using ghost_drop_Some_iff [OF 2(2) that] .
    from Cons.IH [OF 2(3)] have ih: "\<forall>p. p \<in> set ds' \<longleftrightarrow>
              (\<exists>(xx, yy) \<in> set ps. \<exists>r. cell (shape b) yy xx \<noteq> 0 \<and> p = (r, x + xx)
                 \<and> 0 \<le> r \<and> r < HEIGHT \<and> 0 \<le> x + xx \<and> x + xx < WIDTH
                 \<and> ghost_row brd (x + xx) (y + yy) r)" .
    show ?thesis
    proof (cases "0 \<le> r0 \<and> r0 < HEIGHT \<and> 0 \<le> x + xx \<and> x + xx < WIDTH")
      case True
      with 2(4) have "ds = (r0, x + xx) # ds'" by simp
      with ih True 2(1) u show ?thesis unfolding a by auto
    next
      case False
      with 2(4) have "ds = ds'" by simp
      with ih False u show ?thesis unfolding a by auto
    qed
  qed
qed

text \<open>
  Claim C8, as amended. For each occupied local cell \<open>(yy, xx)\<close> of the piece taken on its
  own, \<^verbatim>\<open>drawGhost\<close> finds the row \<open>r\<close> in which the cell comes to rest: at or below its
  own row \<open>y + yy\<close>, every cell passed on the way down empty, and the cell immediately
  below \<open>r\<close> occupied or off the board; the cells it draws are exactly these \<open>(r, x + xx)\<close>
  that lie on the board. The theorem speaks of every call that returns its list of
  cells, that is, whose loop does not read \<^verbatim>\<open>board\<close> outside its bounds; of the other
  calls it says nothing. The function has no effect on the board or the piece: its model
  returns nothing but the cells drawn.
\<close>

theorem drawGhost_projection:
  assumes "drawGhost s b x y = Some ds"
  shows "\<forall>p. p \<in> set ds \<longleftrightarrow>
              (\<exists>xx \<in> {0, 1, 2}. \<exists>yy \<in> {0, 1, 2}. \<exists>r. cell (shape b) yy xx \<noteq> 0 \<and> p = (r, x + xx)
                 \<and> 0 \<le> r \<and> r < HEIGHT \<and> 0 \<le> x + xx \<and> x + xx < WIDTH \<and> y + yy \<le> r
                 \<and> (\<forall>k. y + yy < k \<and> k \<le> r \<longrightarrow> board s (k, x + xx) = 0)
                 \<and> (HEIGHT \<le> r + 1 \<or> board s (r + 1, x + xx) \<noteq> 0))"
  using drawGhost_loop_cells [OF assms [unfolded drawGhost_def]]
  unfolding set_local_cells Bex_Times ghost_row_def .


text \<open>
  Above the occupied cell \<open>(19, 5)\<close> both cells of the vertical piece are projected to
  row 18: the projection is per cell, not a placement of the piece.
\<close>

lemma drawGhost_L_game: "drawGhost L_game (makeBlock 4 0 0) 4 0 = Some [(18, 5), (18, 5)]"
  by code_simp

theorem drawGhost_projection_witness:
  "drawGhost L_game (makeBlock 4 0 0) 4 0 = Some [(18, 5), (18, 5)]
   \<and> (\<forall>p. p \<in> set [(18, 5), (18, 5)] \<longleftrightarrow>
              (\<exists>xx \<in> {0, 1, 2}. \<exists>yy \<in> {0, 1, 2}. \<exists>r. cell (shape (makeBlock 4 0 0)) yy xx \<noteq> 0
                 \<and> p = (r, 4 + xx)
                 \<and> 0 \<le> r \<and> r < HEIGHT \<and> 0 \<le> 4 + xx \<and> 4 + xx < WIDTH \<and> 0 + yy \<le> r
                 \<and> (\<forall>k. 0 + yy < k \<and> k \<le> r \<longrightarrow> board L_game (k, 4 + xx) = 0)
                 \<and> (HEIGHT \<le> r + 1 \<or> board L_game (r + 1, 4 + xx) \<noteq> 0)))"
  using drawGhost_projection [OF drawGhost_L_game] drawGhost_L_game by blast

text \<open>
  Claim C8 as stated fails: the cell immediately below the row the ghost is drawn in is
  not empty and not off the board, but the occupied cell that stopped the slide.
\<close>

theorem drawGhost_projection_counterexample:
  "drawGhost L_game (makeBlock 4 0 0) 4 0 = Some [(18, 5), (18, 5)]
   \<and> ghost_drop (board L_game) 5 0 = Some 18
   \<and> \<not> (board L_game (18 + 1, 5) = 0 \<or> HEIGHT \<le> 18 + 1)"
proof -
  have "ghost_drop (board L_game) 5 0 = Some 18" by code_simp
  moreover have "\<not> (board L_game (18 + 1, 5) = 0 \<or> HEIGHT \<le> 18 + 1)" by (simp add: L_game_def)
  ultimately show ?thesis using drawGhost_L_game by simp
qed

text \<open>
  Where the call returns its cells. It does for every piece whose occupied cells are in
  columns of the board and in rows \<open>\<ge> -1\<close>. A cell two rows or more above the top, or
  beside the board and above the floor, makes the loop read \<^verbatim>\<open>board\<close> out of its bounds
  (the bounds are only checked after the loop), whatever the board holds: so for the
  vertical piece at \<open>cy = -2\<close>, a position the upward kicks of \<^verbatim>\<open>attemptRotation\<close> give on
  a tall stack.
\<close>

lemma drawGhost_loop_defined:
  assumes "\<forall>(xx, yy) \<in> set ps. cell (shape b) yy xx \<noteq> 0 \<longrightarrow>
             0 \<le> x + xx \<and> x + xx < WIDTH \<and> - 1 \<le> y + yy"
  shows "\<exists>ds. drawGhost_loop brd b x y ps = Some ds"
  using assms
proof (induction ps)
  case Nil
  then show ?case by simp
next
  case (Cons a ps)
  obtain xx yy where a: "a = (xx, yy)" by (cases a) auto
  from Cons obtain ds where ds: "drawGhost_loop brd b x y ps = Some ds" by auto
  show ?case
  proof (cases "cell (shape b) yy xx \<noteq> 0")
    case False
    with ds show ?thesis by (simp add: a)
  next
    case True
    with Cons.prems have "0 \<le> x + xx" "x + xx < WIDTH" "- 1 \<le> y + yy" by (simp_all add: a)
    from ghost_drop_row [OF this, of brd] obtain r0 where "ghost_drop brd (x + xx) (y + yy) = Some r0"
      by blast
    with True ds show ?thesis by (simp add: a Let_def)
  qed
qed

lemma drawGhost_defined:
  assumes "\<forall>xx \<in> {0, 1, 2}. \<forall>yy \<in> {0, 1, 2}. cell (shape b) yy xx \<noteq> 0 \<longrightarrow>
             0 \<le> x + xx \<and> x + xx < WIDTH \<and> - 1 \<le> y + yy"
  shows "\<exists>ds. drawGhost s b x y = Some ds"
proof -
  from assms have "\<forall>(xx, yy) \<in> set local_cells. cell (shape b) yy xx \<noteq> 0 \<longrightarrow>
             0 \<le> x + xx \<and> x + xx < WIDTH \<and> - 1 \<le> y + yy"
    unfolding set_local_cells by blast
  from drawGhost_loop_defined [OF this] show ?thesis unfolding drawGhost_def .
qed

lemma ghost_drop_above_top: "gy + 1 < 0 \<Longrightarrow> ghost_drop brd gx gy = None"
  by (subst ghost_drop.simps) simp

lemma ghost_drop_beside_board: "gy + 1 < HEIGHT \<Longrightarrow> gx < 0 \<or> WIDTH \<le> gx \<Longrightarrow> ghost_drop brd gx gy = None"
  by (subst ghost_drop.simps) auto

lemma drawGhost_above_top: "drawGhost empty_game (makeBlock 4 0 0) 4 (- 2) = None"
  by code_simp

subsection \<open>The cascade of \<^verbatim>\<open>lock_and_cascade\<close>\<close>

text \<open>
  In this position the piece cannot move down, so the next tick of \<^verbatim>\<open>main\<close> calls
  \<^verbatim>\<open>lock_and_cascade\<close>; the board below it holds no group to clear and nothing to drop.
\<close>

lemma s_bug_locks:
  "\<not> checkCollision s_bug (current s_bug) (cx s_bug) (cy s_bug)
   \<and> checkCollision s_bug (current s_bug) (cx s_bug) (cy s_bug + 1)
   \<and> fst (clearGroups 1 s_bug) = 0 \<and> \<not> fst (gravityFailSafe s_bug)"
  by code_simp

text \<open>
  Claim C2 fails on the code. \<^verbatim>\<open>lock_and_cascade\<close> returns from this position with a group
  of four cells on the board: the first \<^verbatim>\<open>clearGroups\<close> found nothing, so the inner loop
  ended with \<^verbatim>\<open>any_wave_cleared = 0\<close>; the \<^verbatim>\<open>gravity()\<close> after it dropped the hanging cell
  onto the row of three, and the outer loop ended without clearing again. A further
  gravity step moves nothing, but the \<^verbatim>\<open>clearGroups(1)\<close> that \<^verbatim>\<open>main\<close> calls next removes
  four cells and changes the score and the count of cleared groups.
\<close>

theorem lock_and_cascade_unstable:
  "(case lock_and_cascade 0 0 s_bug of
      Some (Returned s') \<Rightarrow>
        \<not> fst (gravityFailSafe s') \<and> fst (clearGroups 1 s') = 4
        \<and> score s' = 0 \<and> score (snd (clearGroups 1 s')) = 400
        \<and> clears s' = 0 \<and> clears (snd (clearGroups 1 s')) = 1
        \<and> board s' (18, 2) = 1 \<and> board (snd (clearGroups 1 s')) (18, 2) = 0
    | _ \<Rightarrow> False)"
  by code_simp


end
